theory Spec2Isabelle
  imports Main "HOL-Library.Sublist"
begin

section \<open>JavaScript strings\<close>

text \<open>
  A JavaScript string is a sequence of UTF-16 code units; \<open>length\<close>, indexing,
  \<open>substring\<close>, \<open>trim\<close> and the regular expressions of the source all count code
  units. A code unit is modelled as a natural number, a string as a list of them.
  \<open>js\<close> turns an ASCII literal of the theory into such a string.
\<close>

type_synonym jschar = nat
type_synonym jsstring = "nat list"

definition js :: "string \<Rightarrow> jsstring" where
  "js s = map of_char s"

text \<open>
  ECMAScript \<open>WhiteSpace\<close> and \<open>LineTerminator\<close> code units: what \<open>String.prototype.trim\<close>
  strips and what the class \<open>\s\<close> matches (TAB, LF, VT, FF, CR, SP, NBSP, U+1680,
  U+2000..U+200A, LS, PS, U+202F, U+205F, U+3000, U+FEFF).
\<close>

definition isWs :: "jschar \<Rightarrow> bool" where
  "isWs c = (c = 9 \<or> c = 10 \<or> c = 11 \<or> c = 12 \<or> c = 13 \<or> c = 32 \<or> c = 160 \<or> c = 5760
     \<or> (8192 \<le> c \<and> c \<le> 8202) \<or> c = 8232 \<or> c = 8233 \<or> c = 8239 \<or> c = 8287
     \<or> c = 12288 \<or> c = 65279)"

definition isLineTerminator :: "jschar \<Rightarrow> bool" where
  "isLineTerminator c = (c = 10 \<or> c = 13 \<or> c = 8232 \<or> c = 8233)"

definition isDigit :: "jschar \<Rightarrow> bool" where
  "isDigit c = (48 \<le> c \<and> c \<le> 57)"

definition trimStart :: "jsstring \<Rightarrow> jsstring" where
  "trimStart s = dropWhile isWs s"

definition trim :: "jsstring \<Rightarrow> jsstring" where
  "trim s = rev (dropWhile isWs (rev (dropWhile isWs s)))"

definition startsWith :: "jsstring \<Rightarrow> jsstring \<Rightarrow> bool" where
  "startsWith s p = (take (length p) s = p)"

definition endsWith :: "jsstring \<Rightarrow> jsstring \<Rightarrow> bool" where
  "endsWith s p = (length p \<le> length s \<and> drop (length s - length p) s = p)"

text \<open>\<open>s.substring(n)\<close> for \<open>0 \<le> n\<close>: the code units from index \<open>n\<close> on.\<close>

definition substring :: "jsstring \<Rightarrow> nat \<Rightarrow> jsstring" where
  "substring s n = drop n s"

text \<open>\<open>s.split('\n')\<close>: never the empty array; \<open>''.split('\n')\<close> is \<open>['']\<close>.\<close>

fun splitNl :: "jsstring \<Rightarrow> jsstring list" where
  "splitNl [] = [[]]"
| "splitNl (c # cs) =
     (if c = 10 then [] # splitNl cs
      else (case splitNl cs of [] \<Rightarrow> [[c]] | l # ls \<Rightarrow> (c # l) # ls))"

text \<open>\<open>xs.join(sep)\<close>.\<close>

fun joinWith :: "jsstring \<Rightarrow> jsstring list \<Rightarrow> jsstring" where
  "joinWith sep [] = []"
| "joinWith sep [x] = x"
| "joinWith sep (x # y # ys) = x @ sep @ joinWith sep (y # ys)"

definition joinNl :: "jsstring list \<Rightarrow> jsstring" where
  "joinNl xs = joinWith [10] xs"

text \<open>\<open>'c'.repeat(n)\<close>.\<close>

definition repeat :: "jsstring \<Rightarrow> nat \<Rightarrow> jsstring" where
  "repeat s n = concat (replicate n s)"

section \<open>Regular expressions\<close>

text \<open>
  The regular expressions of the source use character classes, sequence, alternation,
  the quantifiers \<open>*\<close>, \<open>+\<close>, \<open>?\<close>, \<open>{m,n}\<close>, and the assertions \<open>^\<close> and \<open>$\<close>
  (with and without the \<open>m\<close> flag); no back-reference and no look-around. For these
  \<open>RegExp.prototype.test\<close> is true exactly when some substring belongs to the language
  of the expression at a position where the assertions hold, which is what \<open>test\<close>
  below computes: \<open>ends r (p, s)\<close> lists the positions (the previous code unit \<open>p\<close>, if
  any, and the remaining input \<open>s\<close>) where a match of \<open>r\<close> started at \<open>(p, s)\<close> can end.
\<close>

datatype atom = Ch jschar | Space | Digit

datatype rx =
    Eps
  | Cls "atom list"     \<comment> \<open>\<open>[...]\<close>, and a single character or escape\<close>
  | NCls "atom list"    \<comment> \<open>\<open>[^...]\<close>\<close>
  | Bol                 \<comment> \<open>\<open>^\<close> without the \<open>m\<close> flag\<close>
  | BolM                \<comment> \<open>\<open>^\<close> with the \<open>m\<close> flag\<close>
  | Eol                 \<comment> \<open>\<open>$\<close> without the \<open>m\<close> flag\<close>
  | Seq rx rx
  | Alt rx rx
  | Star rx

type_synonym pos = "jschar option \<times> jsstring"

fun inAtom :: "jschar \<Rightarrow> atom \<Rightarrow> bool" where
  "inAtom c (Ch d) = (c = d)"
| "inAtom c Space = isWs c"
| "inAtom c Digit = isDigit c"

definition inCls :: "atom list \<Rightarrow> jschar \<Rightarrow> bool" where
  "inCls as c = list_ex (inAtom c) as"

definition samePos :: "pos \<Rightarrow> pos \<Rightarrow> bool" where
  "samePos a b = (length (snd a) = length (snd b))"

definition addPos :: "pos list \<Rightarrow> pos \<Rightarrow> pos list" where
  "addPos acc p = (if list_ex (samePos p) acc then acc else acc @ [p])"

text \<open>
  The positions reachable by repeating a step: at most one new position per round is
  needed to go on, and there are no more positions than the input has suffixes.
\<close>

fun reach :: "nat \<Rightarrow> (pos \<Rightarrow> pos list) \<Rightarrow> pos list \<Rightarrow> pos list" where
  "reach 0 f ps = ps"
| "reach (Suc n) f ps =
     (let qs = foldl addPos ps (concat (map f ps))
      in if length qs = length ps then ps else reach n f qs)"

primrec ends :: "rx \<Rightarrow> pos \<Rightarrow> pos list" where
  "ends Eps = (\<lambda>p. [p])"
| "ends (Cls as) = (\<lambda>p. case snd p of [] \<Rightarrow> [] | c # cs \<Rightarrow> if inCls as c then [(Some c, cs)] else [])"
| "ends (NCls as) = (\<lambda>p. case snd p of [] \<Rightarrow> [] | c # cs \<Rightarrow> if inCls as c then [] else [(Some c, cs)])"
| "ends Bol = (\<lambda>p. if fst p = None then [p] else [])"
| "ends BolM = (\<lambda>p. case fst p of None \<Rightarrow> [p] | Some c \<Rightarrow> if isLineTerminator c then [p] else [])"
| "ends Eol = (\<lambda>p. if snd p = [] then [p] else [])"
| "ends (Seq a b) = (\<lambda>p. foldl addPos [] (concat (map (ends b) (ends a p))))"
| "ends (Alt a b) = (\<lambda>p. foldl addPos (ends a p) (ends b p))"
| "ends (Star a) = (\<lambda>p. reach (Suc (length (snd p))) (ends a) [p])"

text \<open>Every position of a string: before its first code unit, \<dots>, after its last.\<close>

fun positions :: "jschar option \<Rightarrow> jsstring \<Rightarrow> pos list" where
  "positions p [] = [(p, [])]"
| "positions p (c # cs) = (p, c # cs) # positions (Some c) cs"

definition test :: "rx \<Rightarrow> jsstring \<Rightarrow> bool" where
  "test r s = list_ex (\<lambda>p. ends r p \<noteq> []) (positions None s)"

text \<open>The code unit of an ASCII character of the theory.\<close>

definition cu :: "char \<Rightarrow> jschar" where
  "cu c = of_char c"

definition Lit :: "char \<Rightarrow> rx" where
  "Lit c = Cls [Ch (cu c)]"

definition Opt :: "rx \<Rightarrow> rx" where
  "Opt r = Alt r Eps"

definition Plus :: "rx \<Rightarrow> rx" where
  "Plus r = Seq r (Star r)"

text \<open>\<open>r{0,n}\<close> and \<open>r{1,n+1}\<close>.\<close>

fun UpTo :: "nat \<Rightarrow> rx \<Rightarrow> rx" where
  "UpTo 0 r = Eps"
| "UpTo (Suc n) r = Opt (Seq r (UpTo n r))"

fun Seqs :: "rx list \<Rightarrow> rx" where
  "Seqs [] = Eps"
| "Seqs [r] = r"
| "Seqs (r # rs) = Seq r (Seqs rs)"

fun Alts :: "rx list \<Rightarrow> rx" where
  "Alts [] = Cls []"
| "Alts [r] = r"
| "Alts (r # rs) = Alt r (Alts rs)"

section \<open>The Markdown normalizer\<close>

text \<open>
  \<open>normalizeMarkdown\<close> of the command-line client (\<open>src/unnamed/part_000\<close>, lines
  194 to 275): one scan over the lines of the text, with the output array \<open>out\<close> and
  the modes \<open>inFence\<close> and \<open>inTable\<close>.
\<close>

record nstate =
  out :: "jsstring list"
  inFence :: bool
  inTable :: bool
  tablePipeCount :: nat

definition ws :: rx where
  "ws = Cls [Space]"

text \<open>\<open>/^\s*\|?[-:\s]+\|[-:\s|]*$/\<close>\<close>

definition tableSepRx :: rx where
  "tableSepRx = Seqs [Bol, Star ws, Opt (Lit CHR ''|''),
     Plus (Cls [Ch (cu CHR ''-''), Ch (cu CHR '':''), Space]), Lit CHR ''|'',
     Star (Cls [Ch (cu CHR ''-''), Ch (cu CHR '':''), Space, Ch (cu CHR ''|'')]), Eol]"

definition isTableSepLine :: "jsstring \<Rightarrow> bool" where
  "isTableSepLine v = test tableSepRx v"

text \<open>
  A pipe counts unless the code unit before it is a backslash; at index 0 the source
  reads \<open>value[-1]\<close>, which is \<open>undefined\<close> and so not a backslash.
\<close>

fun countPipesFrom :: "jschar option \<Rightarrow> jsstring \<Rightarrow> nat" where
  "countPipesFrom p [] = 0"
| "countPipesFrom p (c # cs) =
     (if c = cu CHR ''|'' \<and> p \<noteq> Some 92 then 1 else 0) + countPipesFrom (Some c) cs"

definition countPipes :: "jsstring \<Rightarrow> nat" where
  "countPipes v = countPipesFrom None v"

text \<open>
  \<open>/^(#{1,6}\s|>|\s*[-*+]\s|\s*\d+\.\s|---$|___$|\*\*\*$|\s*\<bullet>\s)/\<close>, the last
  alternative with the bullet glyph U+2022.
\<close>

definition blockStartRx :: rx where
  "blockStartRx = Seq Bol (Alts [
     Seqs [Lit CHR ''#'', UpTo 5 (Lit CHR ''#''), ws],
     Lit CHR ''>'',
     Seqs [Star ws, Cls [Ch (cu CHR ''-''), Ch (cu CHR ''*''), Ch (cu CHR ''+'')], ws],
     Seqs [Star ws, Plus (Cls [Digit]), Lit CHR ''.'', ws],
     Seqs [Lit CHR ''-'', Lit CHR ''-'', Lit CHR ''-'', Eol],
     Seqs [Lit CHR ''_'', Lit CHR ''_'', Lit CHR ''_'', Eol],
     Seqs [Lit CHR ''*'', Lit CHR ''*'', Lit CHR ''*'', Eol],
     Seqs [Star ws, Cls [Ch 8226], ws]])"

definition isBlockStart :: "jsstring \<Rightarrow> bool" where
  "isBlockStart line = test blockStartRx line"

definition fence3 :: jsstring where
  "fence3 = js ''```''"

definition push :: "nstate \<Rightarrow> jsstring \<Rightarrow> nstate" where
  "push st x = st\<lparr>out := out st @ [x]\<rparr>"

text \<open>\<open>out[out.length - 1] = `${out[out.length - 1]} ${trimmed}`\<close>, for a non-empty \<open>out\<close>.\<close>

definition appendToLast :: "nstate \<Rightarrow> jsstring \<Rightarrow> nstate" where
  "appendToLast st trimmed = st\<lparr>out := butlast (out st) @ [last (out st) @ js '' '' @ trimmed]\<rparr>"

text \<open>
  The body of the loop for the line \<open>line = lines[i]\<close>, where \<open>next\<close> is
  \<open>lines[i + 1] || ''\<close>.
\<close>

definition normalizeLine :: "nstate \<Rightarrow> jsstring \<Rightarrow> jsstring \<Rightarrow> nstate" where
  "normalizeLine st line next =
     (let trimmed = trim line in
      if startsWith trimmed fence3 then push (st\<lparr>inFence := \<not> inFence st\<rparr>) line
      else if inFence st then push st line
      else
        let pipeCount = countPipes line in
        if \<not> inTable st \<and> 2 \<le> pipeCount \<and> isTableSepLine next
        then push (st\<lparr>inTable := True, tablePipeCount := pipeCount\<rparr>) line
        else if inTable st then
          (if trimmed = [] then push (st\<lparr>inTable := False, tablePipeCount := 0\<rparr>) []
           else if isTableSepLine line \<or> tablePipeCount st \<le> pipeCount then push st line
           else if out st \<noteq> [] then appendToLast st trimmed
           else push st trimmed)
        else if trimmed = [] then push st []
        else if isBlockStart line then push st line
        else
          let prev = (if out st = [] then [] else last (out st));
              prevBlock = isBlockStart prev
          in if out st \<noteq> [] \<and> prev \<noteq> [] \<and> \<not> prevBlock \<and> \<not> endsWith (trim prev) (js ''  '')
             then st\<lparr>out := butlast (out st) @ [prev @ js '' '' @ trimmed]\<rparr>
             else push st trimmed)"

text \<open>
  The loop \<open>for (let i = 0; i < lines.length; i++)\<close>. \<open>scanLines st ls e\<close> runs the body
  over the lines \<open>ls\<close>, where \<open>e\<close> is what follows the last of them (\<open>''\<close> at the end
  of the text: \<open>lines[lines.length]\<close> is \<open>undefined\<close>).
\<close>

fun scanLines :: "nstate \<Rightarrow> jsstring list \<Rightarrow> jsstring \<Rightarrow> nstate" where
  "scanLines st [] e = st"
| "scanLines st [l] e = normalizeLine st l e"
| "scanLines st (l # m # ls) e = scanLines (normalizeLine st l m) (m # ls) e"

definition initState :: nstate where
  "initState = \<lparr>out = [], inFence = False, inTable = False, tablePipeCount = 0\<rparr>"

definition normalizeLines :: "jsstring list \<Rightarrow> nstate" where
  "normalizeLines ls = scanLines initState ls []"

definition normalizeMarkdown :: "jsstring \<Rightarrow> jsstring" where
  "normalizeMarkdown md = joinNl (out (normalizeLines (splitNl md)))"

section \<open>Auxiliary notions for the normalizer proofs\<close>

text \<open>
  A string that \<open>trim\<close> leaves alone, a fence delimiter line, the test that makes the
  loop body append to the last output line, and the loop body on lines without pipes,
  where the look-ahead plays no role.
\<close>

definition trimmedStr :: "jsstring \<Rightarrow> bool" where
  "trimmedStr t = (t \<noteq> [] \<and> \<not> isWs (hd t) \<and> \<not> isWs (last t))"

definition isFence :: "jsstring \<Rightarrow> bool" where
  "isFence l = startsWith (trim l) fence3"

definition joinable :: "jsstring list \<Rightarrow> bool" where
  "joinable ou = (ou \<noteq> [] \<and> last ou \<noteq> [] \<and> \<not> isBlockStart (last ou) \<and> \<not> endsWith (trim (last ou)) (js ''  ''))"

definition plainStep :: "nstate \<Rightarrow> jsstring \<Rightarrow> nstate" where
  "plainStep st l = normalizeLine st l []"

definition runPlain :: "jsstring list \<Rightarrow> nstate" where
  "runPlain ls = foldl plainStep initState ls"

text \<open>
  The invariant behind idempotence: scanning the output produced so far reproduces the
  state, and so does scanning it without its last line (up to the fence mode at that
  point), which is what an append to the last line needs.
\<close>

definition stable :: "nstate \<Rightarrow> bool" where
  "stable st = (\<not> inTable st \<and> (\<forall>x\<in>set (out st). 124 \<notin> set x) \<and> runPlain (out st) = st
     \<and> (out st \<noteq> [] \<longrightarrow> (\<exists>f0. runPlain (butlast (out st)) = st\<lparr>out := butlast (out st), inFence := f0\<rparr>)))"

text \<open>
  The output still starts with the lines \<open>A\<close>, followed by a line that extends \<open>x\<close>:
  what later steps keep of a closed fenced block, since they only append lines or
  extend the last one.
\<close>

definition keeps :: "jsstring list \<Rightarrow> jsstring \<Rightarrow> nstate \<Rightarrow> bool" where
  "keeps A x st = (\<exists>c rest. out st = A @ c # rest \<and> prefix x c)"

section \<open>Choosing the final text\<close>

text \<open>
  \<open>looksLikeMarkdown\<close> (\<open>src/unnamed/part_000\<close>, lines 277 to 280): false on the
  empty string, otherwise the test of
  \<open>/```|^\s{0,3}#{1,6}\s|\n\s*[-*+]\s|\n\s*\d+\.\s|\|\s*---|\[[^\]]+\]\([^)]+\)|`[^`]+`/m\<close>.
\<close>

definition looksLikeMarkdownRx :: rx where
  "looksLikeMarkdownRx = Alts [
     Seqs [Lit CHR ''`'', Lit CHR ''`'', Lit CHR ''`''],
     Seqs [BolM, UpTo 3 ws, Lit CHR ''#'', UpTo 5 (Lit CHR ''#''), ws],
     Seqs [Cls [Ch 10], Star ws, Cls [Ch (cu CHR ''-''), Ch (cu CHR ''*''), Ch (cu CHR ''+'')], ws],
     Seqs [Cls [Ch 10], Star ws, Plus (Cls [Digit]), Lit CHR ''.'', ws],
     Seqs [Lit CHR ''|'', Star ws, Lit CHR ''-'', Lit CHR ''-'', Lit CHR ''-''],
     Seqs [Lit CHR ''['', Plus (NCls [Ch (cu CHR '']'')]), Lit CHR '']'',
           Lit CHR ''('', Plus (NCls [Ch (cu CHR '')'')]), Lit CHR '')''],
     Seqs [Lit CHR ''`'', Plus (NCls [Ch (cu CHR ''`'')]), Lit CHR ''`'']]"

definition looksLikeMarkdown :: "jsstring \<Rightarrow> bool" where
  "looksLikeMarkdown s = (if s = [] then False else test looksLikeMarkdownRx s)"

text \<open>
  The end of \<open>waitForResponseAndRender\<close> (lines 671 to 682). \<open>copied\<close> is what \<open>fetchCopyMarkdown\<close> resolved
  (\<open>None\<close> for \<open>null\<close>), \<open>domText\<close> what \<open>fetchDomMarkdown\<close> returns when it is called. A
  string is falsy exactly when it is empty.
\<close>

definition chooseFinalText :: "jsstring option \<Rightarrow> jsstring \<Rightarrow> jsstring" where
  "chooseFinalText copied domText =
     (case copied of
        None \<Rightarrow> domText
      | Some finalText \<Rightarrow>
          if finalText = [] \<or> trim finalText = [] then domText
          else if \<not> looksLikeMarkdown finalText then
            (if domText \<noteq> [] \<and> trim domText \<noteq> [] then domText else finalText)
          else finalText)"

text \<open>
  \<open>finalText = normalizeMarkdown(finalText || ''); rendered = marked(finalText)\<close>, with
  the renderer \<open>marked\<close> of the library as a parameter.
\<close>

definition renderFinal :: "(jsstring \<Rightarrow> 'r) \<Rightarrow> jsstring option \<Rightarrow> jsstring \<Rightarrow> 'r" where
  "renderFinal marked copied domText = marked (normalizeMarkdown (chooseFinalText copied domText))"

section \<open>The pollers\<close>

subsection \<open>\<open>streamResponse\<close>: the streaming poller\<close>

text \<open>
  \<open>streamResponse\<close> of \<open>src/chatbot.js\<close> (lines 488 to 543) polls the page every 200
  ms. What one tick of the interval callback reads from the page: the number of reply
  candidates, the \<open>innerText\<close> of the last one (\<open>''\<close> when it has none), whether its
  container holds a regenerate or thumbs-up control, what the poller's own
  \<open>domToMarkdown\<close> makes of it, and \<open>Date.now() - startTime\<close> in milliseconds.
\<close>

record pollObs =
  candidateCount :: nat
  innerText :: jsstring
  isUIComplete :: bool
  domMarkdown :: jsstring
  elapsedMs :: nat

record streamState =
  lastTextLength :: nat
  stableCount :: nat

text \<open>The calls to the hooks \<open>window.onNewChunk\<close>, \<open>onFinalMarkdown\<close>, \<open>onResponseComplete\<close>.\<close>

datatype event = OnNewChunk jsstring | OnFinalMarkdown jsstring | OnResponseComplete

definition initStream :: streamState where
  "initStream = \<lparr>lastTextLength = 0, stableCount = 0\<rparr>"

text \<open>The text-diff emitter: the first \<open>if\<close>/\<open>else if\<close> of the callback.\<close>

definition textDiff :: "streamState \<Rightarrow> jsstring \<Rightarrow> streamState \<times> event list" where
  "textDiff s currentText =
     (if lastTextLength s < length currentText
      then (\<lparr>lastTextLength = length currentText, stableCount = 0\<rparr>,
            [OnNewChunk (substring currentText (lastTextLength s))])
      else if length currentText = lastTextLength s \<and> 0 < length currentText
      then (s\<lparr>stableCount := stableCount s + 1\<rparr>, [])
      else (s, []))"

definition finalMarkdownOf :: "pollObs \<Rightarrow> jsstring" where
  "finalMarkdownOf ob =
     (if domMarkdown ob = [] \<or> length (trim (domMarkdown ob)) = 0 then innerText ob
      else domMarkdown ob)"

text \<open>
  One tick: the new state, the hooks called, and whether the interval was cleared and
  the promise resolved.
\<close>

definition streamTick :: "nat \<Rightarrow> streamState \<Rightarrow> pollObs \<Rightarrow> streamState \<times> event list \<times> bool" where
  "streamTick initialCount s ob =
     (if initialCount < candidateCount ob then
        (case textDiff s (innerText ob) of (s1, ev) \<Rightarrow>
           if isUIComplete ob \<or> (5 < stableCount s1 \<and> 0 < lastTextLength s1) \<or> 120000 < elapsedMs ob
           then (s1, ev @ [OnFinalMarkdown (finalMarkdownOf ob), OnResponseComplete], True)
           else (s1, ev, False))
      else if 30000 < elapsedMs ob then (s, [OnResponseComplete], True)
      else (s, [], False))"

text \<open>
  The interval over a sequence of observations, one per tick: it stops at the first tick
  that clears it; \<open>False\<close> says it is still polling after the last observation.
\<close>

fun streamResponse :: "nat \<Rightarrow> streamState \<Rightarrow> pollObs list \<Rightarrow> streamState \<times> event list \<times> bool" where
  "streamResponse initialCount s [] = (s, [], False)"
| "streamResponse initialCount s (ob # obs) =
     (case streamTick initialCount s ob of
        (s1, ev, True) \<Rightarrow> (s1, ev, True)
      | (s1, ev, False) \<Rightarrow>
          (case streamResponse initialCount s1 obs of (s2, evs, done) \<Rightarrow> (s2, ev @ evs, done)))"

text \<open>The text the terminal side has received: the chunks, in order.\<close>

fun emitted :: "event list \<Rightarrow> jsstring" where
  "emitted [] = []"
| "emitted (OnNewChunk c # es) = c @ emitted es"
| "emitted (e # es) = emitted es"

subsection \<open>\<open>waitForResponseAndRender\<close>: the rendering poller\<close>

text \<open>
  \<open>src/unnamed/part_000\<close>, lines 622 to 663. One iteration of its \<open>while (true)\<close>
  loop reads the abort flag, the \<open>state\<close> object
  evaluated in the page (\<open>hasCopy\<close>, \<open>textLength\<close>; both off when no candidate is beyond
  the baseline), and then \<open>Date.now() - start\<close>.
\<close>

record waitObs =
  abortRequested :: bool
  hasCopy :: bool
  textLength :: nat
  elapsedAfterMs :: nat

record waitState =
  lastLength :: nat
  stableTicks :: nat
  hasStartedTyping :: bool

definition initWait :: waitState where
  "initWait = \<lparr>lastLength = 0, stableTicks = 0, hasStartedTyping = False\<rparr>"

text \<open>One iteration: the new state and whether the loop was left by a \<open>break\<close>.\<close>

definition waitTick :: "waitState \<Rightarrow> waitObs \<Rightarrow> waitState \<times> bool" where
  "waitTick s ob =
     (if abortRequested ob then (s, True)
      else
        let s0 = (if 0 < textLength ob \<and> \<not> hasStartedTyping s then s\<lparr>hasStartedTyping := True\<rparr> else s)
        in if hasCopy ob then (s0, True)
           else
             let s1 = (if 0 < textLength ob
                       then (if textLength ob = lastLength s0
                             then s0\<lparr>stableTicks := stableTicks s0 + 1\<rparr>
                             else s0\<lparr>stableTicks := 0, lastLength := textLength ob\<rparr>)
                       else s0)
             in if 0 < textLength ob \<and> 6 \<le> stableTicks s1 then (s1, True)
                else if 300000 < elapsedAfterMs ob then (s1, True)
                else (s1, False))"

fun waitLoop :: "waitState \<Rightarrow> waitObs list \<Rightarrow> waitState \<times> bool" where
  "waitLoop s [] = (s, False)"
| "waitLoop s (ob # obs) =
     (case waitTick s ob of (s1, True) \<Rightarrow> (s1, True) | (s1, False) \<Rightarrow> waitLoop s1 obs)"

subsection \<open>Auxiliary: the length tracking both pollers share on a growing reply\<close>

text \<open>
  The pair (last length, stable ticks) after one more observed length, as
  \<open>streamResponse\<close> updates it.
\<close>

fun trackLen :: "nat \<times> nat \<Rightarrow> nat \<Rightarrow> nat \<times> nat" where
  "trackLen (l, k) n = (if l < n then (n, 0) else if n = l \<and> 0 < n then (l, k + 1) else (l, k))"

text \<open>The pairs of the two pollers' states, and an observation of one candidate without a marker.\<close>

definition pairOf :: "streamState \<Rightarrow> nat \<times> nat" where
  "pairOf s = (lastTextLength s, stableCount s)"

definition pairOfW :: "waitState \<Rightarrow> nat \<times> nat" where
  "pairOfW s = (lastLength s, stableTicks s)"

definition obsOf :: "jsstring \<Rightarrow> nat \<Rightarrow> pollObs" where
  "obsOf t ms = \<lparr>candidateCount = 1, innerText = t, isUIComplete = False, domMarkdown = t, elapsedMs = ms\<rparr>"

section \<open>The rich-text walker\<close>

text \<open>
  \<open>domToMarkdown\<close> inside \<open>fetchDomMarkdown\<close> (\<open>src/unnamed/part_000\<close>, lines 282 to
  476), with the part of the DOM interface it uses.
\<close>

subsection \<open>The document tree\<close>

text \<open>
  A snapshot of the rendered reply: text nodes, elements (lower-cased tag name, class
  list, attributes, child nodes) and other nodes such as comments.
\<close>

datatype node =
    TextNode jsstring
  | Element string "string list" "(string \<times> jsstring) list" "node list"
  | OtherNode

fun tagName :: "node \<Rightarrow> string" where
  "tagName (Element t cs as ks) = t"
| "tagName n = []"

fun classList :: "node \<Rightarrow> string list" where
  "classList (Element t cs as ks) = cs"
| "classList n = []"

fun attributes :: "node \<Rightarrow> (string \<times> jsstring) list" where
  "attributes (Element t cs as ks) = as"
| "attributes n = []"

fun childNodes :: "node \<Rightarrow> node list" where
  "childNodes (Element t cs as ks) = ks"
| "childNodes n = []"

fun isElement :: "node \<Rightarrow> bool" where
  "isElement (Element t cs as ks) = True"
| "isElement n = False"

text \<open>\<open>el.children\<close>: the child elements.\<close>

definition children :: "node \<Rightarrow> node list" where
  "children n = filter isElement (childNodes n)"

text \<open>\<open>textContent\<close>: the text of all text nodes below, in document order.\<close>

fun textContent :: "node \<Rightarrow> jsstring" where
  "textContent (TextNode t) = t"
| "textContent (Element t cs as ks) = concat (map textContent ks)"
| "textContent OtherNode = []"

subsection \<open>Selectors\<close>

text \<open>
  The selectors of the source are lists of complex selectors, each a chain of compound
  selectors joined by the descendant combinator; a compound selector names a tag, a
  class, an attribute value, or several of them.
\<close>

record compound =
  selTag :: "string option"
  selClass :: "string option"
  selAttr :: "(string \<times> jsstring) option"

definition byTag :: "string \<Rightarrow> compound" where
  "byTag t = \<lparr>selTag = Some t, selClass = None, selAttr = None\<rparr>"

definition byClass :: "string \<Rightarrow> compound" where
  "byClass c = \<lparr>selTag = None, selClass = Some c, selAttr = None\<rparr>"

definition matchesCompound :: "compound \<Rightarrow> node \<Rightarrow> bool" where
  "matchesCompound c n =
     (isElement n
      \<and> (case selTag c of None \<Rightarrow> True | Some t \<Rightarrow> tagName n = t)
      \<and> (case selClass c of None \<Rightarrow> True | Some k \<Rightarrow> k \<in> set (classList n))
      \<and> (case selAttr c of None \<Rightarrow> True | Some (a, v) \<Rightarrow> map_of (attributes n) a = Some v))"

text \<open>
  The compounds left of the last one, nearest first, against the ancestors of the
  element, nearest first: each needs an ancestor further out than the one before.
\<close>

fun matchesAncestors :: "compound list \<Rightarrow> node list \<Rightarrow> bool" where
  "matchesAncestors [] anc = True"
| "matchesAncestors (c # cs) [] = False"
| "matchesAncestors (c # cs) (a # anc) =
     ((matchesCompound c a \<and> matchesAncestors cs anc) \<or> matchesAncestors (c # cs) anc)"

definition matchesComplex :: "compound list \<Rightarrow> node list \<Rightarrow> node \<Rightarrow> bool" where
  "matchesComplex sel anc n =
     (case rev sel of [] \<Rightarrow> False | c # cs \<Rightarrow> matchesCompound c n \<and> matchesAncestors cs anc)"

text \<open>
  The elements below a node in document order, each with its ancestors (nearest
  first); \<open>anc\<close> are the ancestors of the node itself.
\<close>

fun descendants :: "node list \<Rightarrow> node \<Rightarrow> (node list \<times> node) list"
  and descendantsOf :: "node list \<Rightarrow> node list \<Rightarrow> (node list \<times> node) list" where
  "descendants anc (Element t cs as ks) = descendantsOf (Element t cs as ks # anc) ks"
| "descendants anc (TextNode s) = []"
| "descendants anc OtherNode = []"
| "descendantsOf anc [] = []"
| "descendantsOf anc (k # ks) =
     (if isElement k then (anc, k) # descendants anc k else []) @ descendantsOf anc ks"

text \<open>
  \<open>root.querySelectorAll(sels)\<close> and \<open>root.querySelector(sels)\<close>: the descendants of
  \<open>root\<close> (never \<open>root\<close> itself) that match one of the selectors, in document order,
  and the first of them.
\<close>

definition querySelectorAll :: "node list \<Rightarrow> node \<Rightarrow> compound list list \<Rightarrow> (node list \<times> node) list" where
  "querySelectorAll anc root sels =
     filter (\<lambda>(a, n). list_ex (\<lambda>sel. matchesComplex sel a n) sels) (descendants anc root)"

definition querySelector :: "node list \<Rightarrow> node \<Rightarrow> compound list list \<Rightarrow> (node list \<times> node) option" where
  "querySelector anc root sels =
     (case querySelectorAll anc root sels of [] \<Rightarrow> None | x # xs \<Rightarrow> Some x)"

subsection \<open>\<open>domToMarkdown\<close>\<close>

datatype listType = UL | OL

text \<open>The buffer \<open>md\<close> and the stack of open lists (the innermost first) with their counters.\<close>

record walker =
  md :: jsstring
  listStack :: "(listType \<times> nat) list"

definition appendMd :: "walker \<Rightarrow> jsstring \<Rightarrow> walker" where
  "appendMd w t = w\<lparr>md := md w @ t\<rparr>"

definition trailingNewlines :: "walker \<Rightarrow> nat" where
  "trailingNewlines w = length (takeWhile (\<lambda>c. c = 10) (rev (md w)))"

definition ensureNewlines :: "nat \<Rightarrow> walker \<Rightarrow> walker" where
  "ensureNewlines n w =
     (let current = trailingNewlines w
      in if current < n then appendMd w (replicate (n - current) 10) else w)"

text \<open>The lengths of the matches of \<open>/`+/g\<close>: the maximal runs of backticks.\<close>

fun backtickRuns :: "nat \<Rightarrow> jsstring \<Rightarrow> nat list" where
  "backtickRuns n [] = (if n = 0 then [] else [n])"
| "backtickRuns n (c # cs) =
     (if c = cu CHR ''`'' then backtickRuns (Suc n) cs
      else (if n = 0 then [] else [n]) @ backtickRuns 0 cs)"

definition fenceFor :: "jsstring \<Rightarrow> jsstring" where
  "fenceFor t = repeat (js ''`'') (max 3 (foldl max 0 (backtickRuns 0 t) + 1))"

definition inlineFence :: "jsstring \<Rightarrow> jsstring" where
  "inlineFence t = repeat (js ''`'') (max 1 (foldl max 0 (backtickRuns 0 t) + 1))"

text \<open>\<open>replace(/\s+/g, ' ')\<close>, \<open>replace(/\|/g, '\\|')\<close> and \<open>escapeTableCell\<close>.\<close>

fun collapseWsFrom :: "bool \<Rightarrow> jsstring \<Rightarrow> jsstring" where
  "collapseWsFrom inRun [] = []"
| "collapseWsFrom inRun (c # cs) =
     (if isWs c then (if inRun then [] else js '' '') @ collapseWsFrom True cs
      else c # collapseWsFrom False cs)"

definition escapePipes :: "jsstring \<Rightarrow> jsstring" where
  "escapePipes t = concat (map (\<lambda>c. if c = cu CHR ''|'' then [92, c] else [c]) t)"

definition escapeTableCell :: "jsstring \<Rightarrow> jsstring" where
  "escapeTableCell t = trim (escapePipes (collapseWsFrom False t))"

text \<open>
  \<open>toLowerCase\<close>, on the letters A to Z; other code units are left as they are (the
  language labels of code blocks are ASCII).
\<close>

definition toLowerCase :: "jsstring \<Rightarrow> jsstring" where
  "toLowerCase t = map (\<lambda>c. if 65 \<le> c \<and> c \<le> 90 then c + 32 else c) t"

text \<open>The cells of a row: its child elements with one of the given tags, escaped.\<close>

definition cellsOf :: "string list \<Rightarrow> node \<Rightarrow> jsstring list" where
  "cellsOf tags row =
     map (\<lambda>el. escapeTableCell (textContent el)) (filter (\<lambda>el. tagName el \<in> set tags) (children row))"

definition tableRow :: "jsstring list \<Rightarrow> jsstring" where
  "tableRow cells = js ''| '' @ joinWith (js '' | '') cells @ js '' |\<newline>''"

definition extractTable :: "node list \<Rightarrow> node \<Rightarrow> walker \<Rightarrow> walker" where
  "extractTable anc table w =
     (let headerCells0 =
            (case querySelector anc table [[byTag ''thead'']] of
               None \<Rightarrow> []
             | Some (a, thead) \<Rightarrow>
                 (case querySelector a thead [[byTag ''tr'']] of
                    None \<Rightarrow> []
                  | Some (b, headerRow) \<Rightarrow> cellsOf [''th''] headerRow));
          bodyRows = querySelectorAll anc table [[byTag ''tbody'', byTag ''tr''], [byTag ''tr'']];
          rows0 = filter (\<lambda>cells. cells \<noteq> []) (map (\<lambda>(a, row). cellsOf [''td'', ''th''] row) bodyRows);
          shifted = (headerCells0 = [] \<and> rows0 \<noteq> []);
          headerCells = (if shifted then hd rows0 else headerCells0);
          rows = (if shifted then tl rows0 else rows0)
      in if headerCells = [] then w
         else
           let colCount = foldl max (length headerCells) (map length rows);
               pad = (\<lambda>arr. arr @ replicate (colCount - length arr) []);
               header = pad headerCells;
               sep = map (\<lambda>c. js ''---'') header
           in appendMd w
                (js ''\<newline>\<newline>'' @ tableRow header @ tableRow sep
                 @ concat (map (\<lambda>row. tableRow (pad row)) rows) @ js ''\<newline>''))"

text \<open>\<open>codeText.replace(/\n$/, '')\<close>: one trailing newline is dropped.\<close>

definition stripFinalNewline :: "jsstring \<Rightarrow> jsstring" where
  "stripFinalNewline t = (if t \<noteq> [] \<and> last t = 10 then butlast t else t)"

definition extractCodeBlock :: "node list \<Rightarrow> node \<Rightarrow> walker \<Rightarrow> walker" where
  "extractCodeBlock anc block w =
     (let lang =
            (case querySelector anc block
                    [[byClass ''code-block-decoration'', byTag ''span''],
                     [byClass ''header-formatted'', byTag ''span''],
                     [byClass ''code-block-decoration'']] of
               None \<Rightarrow> []
             | Some (a, langEl) \<Rightarrow> toLowerCase (trim (textContent langEl)));
          codeText0 =
            (case querySelector anc block
                    [[\<lparr>selTag = Some ''code'', selClass = None,
                       selAttr = Some (''data-test-id'', js ''code-content'')\<rparr>],
                     [byTag ''pre'', byTag ''code''],
                     [byTag ''code''],
                     [byTag ''pre'']] of
               None \<Rightarrow> []
             | Some (a, codeEl) \<Rightarrow> textContent codeEl);
          codeText = stripFinalNewline codeText0;
          fence = fenceFor codeText
      in appendMd w
           (js ''\<newline>\<newline>'' @ fence @ (if lang \<noteq> [] then js '' '' @ lang else []) @ js ''\<newline>''
            @ codeText @ js ''\<newline>'' @ fence @ js ''\<newline>\<newline>''))"

text \<open>The decimal digits of a list counter.\<close>

fun showNat :: "nat \<Rightarrow> jsstring" where
  "showNat n = (if n < 10 then [48 + n] else showNat (n div 10) @ [48 + n mod 10])"

declare showNat.simps [simp del]

definition headingLevel :: "string \<Rightarrow> nat option" where
  "headingLevel t =
     (if t = ''h1'' then Some 1 else if t = ''h2'' then Some 2 else if t = ''h3'' then Some 3
      else if t = ''h4'' then Some 4 else if t = ''h5'' then Some 5 else if t = ''h6'' then Some 6
      else None)"

text \<open>The marker of a list item and the stack with the counter of an ordered list advanced.\<close>

definition listMarker :: "(listType \<times> nat) list \<Rightarrow> jsstring \<times> (listType \<times> nat) list" where
  "listMarker stack =
     (case stack of
        (OL, i) # rest \<Rightarrow> (showNat (i + 1) @ js ''.'', (OL, i + 1) # rest)
      | other \<Rightarrow> (js ''-'', stack))"

definition quoteLines :: "jsstring list \<Rightarrow> jsstring" where
  "quoteLines ls = concat (map (\<lambda>line. js ''> '' @ line @ js ''\<newline>'') ls)"

text \<open>
  \<open>render(child, inListItem)\<close> and \<open>renderChildren\<close>; \<open>anc\<close> are the ancestors of the
  node, which the selectors of \<open>extractCodeBlock\<close> and \<open>extractTable\<close> may look at.
\<close>

fun render :: "node list \<Rightarrow> bool \<Rightarrow> node \<Rightarrow> walker \<Rightarrow> walker"
  and renderChildren :: "node list \<Rightarrow> bool \<Rightarrow> node list \<Rightarrow> walker \<Rightarrow> walker" where
  "renderChildren anc inListItem [] w = w"
| "renderChildren anc inListItem (k # ks) w = renderChildren anc inListItem ks (render anc inListItem k w)"
| "render anc inListItem (TextNode t) w = appendMd w t"
| "render anc inListItem OtherNode w = w"
| "render anc inListItem (Element tag cs as ks) w =
     (let self = Element tag cs as ks; inner = self # anc in
      if tag = ''code-block'' \<or> ''code-block'' \<in> set cs then extractCodeBlock anc self w
      else if tag = ''pre'' then extractCodeBlock anc self w
      else if tag = ''table'' then extractTable anc self w
      else if tag = ''br'' then appendMd w (js ''\<newline>'')
      else if tag = ''hr'' then ensureNewlines 2 (appendMd (ensureNewlines 2 w) (js ''---''))
      else if tag = ''p'' then
        (if inListItem then renderChildren inner True ks w
         else ensureNewlines 2 (renderChildren inner False ks (ensureNewlines 2 w)))
      else if headingLevel tag \<noteq> None then
        ensureNewlines 2 (renderChildren inner False ks
          (appendMd (ensureNewlines 2 w) (replicate (the (headingLevel tag)) (cu CHR ''#'') @ js '' '')))
      else if tag = ''ul'' \<or> tag = ''ol'' then
        (let w1 = ensureNewlines 2 (w\<lparr>listStack := (if tag = ''ul'' then UL else OL, 0) # listStack w\<rparr>);
             w2 = renderChildren inner False ks w1
         in ensureNewlines 2 (w2\<lparr>listStack := tl (listStack w2)\<rparr>))
      else if tag = ''li'' then
        (let w1 = ensureNewlines 1 w;
             indent = repeat (js ''  '') (length (listStack w1) - 1);
             (marker, stack) = listMarker (listStack w1)
         in renderChildren inner True ks
              (appendMd (w1\<lparr>listStack := stack\<rparr>) (indent @ marker @ js '' '')))
      else if tag = ''blockquote'' then
        (let w1 = ensureNewlines 2 w;
             w2 = renderChildren inner False ks (w1\<lparr>md := []\<rparr>);
             content = splitNl (trim (md w2))
         in ensureNewlines 2 (appendMd (w2\<lparr>md := md w1\<rparr>) (quoteLines content)))
      else if tag = ''strong'' \<or> tag = ''b'' then
        appendMd (renderChildren inner inListItem ks (appendMd w (js ''**''))) (js ''**'')
      else if tag = ''em'' \<or> tag = ''i'' then
        appendMd (renderChildren inner inListItem ks (appendMd w (js ''_''))) (js ''_'')
      else if tag = ''code'' then
        (let t = textContent self; fence = inlineFence t in appendMd w (fence @ t @ fence))
      else if tag = ''a'' then
        (let href = (case map_of as ''href'' of None \<Rightarrow> [] | Some h \<Rightarrow> h)
         in appendMd (renderChildren inner inListItem ks (appendMd w (js ''[''))) (js '']('' @ href @ js '')''))
      else renderChildren inner inListItem ks w)"

definition domToMarkdown :: "node list \<Rightarrow> node \<Rightarrow> jsstring" where
  "domToMarkdown anc n = trim (md (renderChildren (n # anc) False (childNodes n) \<lparr>md = [], listStack = []\<rparr>))"

text \<open>
  \<open>fetchDomMarkdown\<close>: no candidate gives \<open>''\<close>; an empty walk falls back to the
  candidate's \<open>innerText\<close>.
\<close>

definition fetchDomMarkdown :: "(node list \<times> node \<times> jsstring) option \<Rightarrow> jsstring" where
  "fetchDomMarkdown candidate =
     (case candidate of
        None \<Rightarrow> []
      | Some (anc, n, candidateInnerText) \<Rightarrow>
          let finalMarkdown = domToMarkdown anc n
          in if finalMarkdown = [] \<or> length (trim finalMarkdown) = 0 then candidateInnerText
             else finalMarkdown)"

section \<open>The copy action\<close>

text \<open>
  \<open>fetchCopyMarkdown\<close> (\<open>src/unnamed/part_000\<close>, lines 478 to 526) patches the page's clipboard machinery, clicks the copy button
  of the latest reply, and 50 ms later undoes the patches and resolves what it captured.
  A function value of the page is a function the page came with, a bound copy of a
  function (\<open>f.bind(navigator.clipboard)\<close>, a new function object), or one of the two
  shims the source installs.
\<close>

datatype fnValue =
    Native string
  | BoundFn fnValue
  | CaptureWriteText   \<comment> \<open>\<open>async (text) => { captured = text; return Promise.resolve(); }\<close>\<close>
  | ReturnTrue         \<comment> \<open>\<open>function () { return true; }\<close>\<close>

datatype listener = PageListener nat | OnCopy

text \<open>
  The slots the function touches: \<open>navigator.clipboard.writeText\<close> (\<open>None\<close> when
  \<open>navigator.clipboard\<close> or its \<open>writeText\<close> is missing), \<open>document.execCommand\<close>, and
  the listeners of the document's \<open>copy\<close> event.
\<close>

record pageState =
  clipboardWriteText :: "fnValue option"
  execCommand :: fnValue
  copyListeners :: "listener list"

text \<open>
  What the page does with that machinery between the click and the timeout: it calls
  \<open>navigator.clipboard.writeText(t)\<close>, calls \<open>document.execCommand('copy')\<close>, or a
  \<open>copy\<close> event is dispatched whose \<open>clipboardData.getData('text/plain')\<close> gives a text
  or throws. (The page is taken to use the slots, not to reassign them.)
\<close>

datatype pageAction = CallWriteText jsstring | CallExecCommand | DispatchCopy "jsstring option"

definition addEventListener :: "listener \<Rightarrow> listener list \<Rightarrow> listener list" where
  "addEventListener l ls = (if l \<in> set ls then ls else ls @ [l])"

definition removeEventListener :: "listener \<Rightarrow> listener list \<Rightarrow> listener list" where
  "removeEventListener l ls = removeAll l ls"

text \<open>The effect of one action on \<open>captured\<close>, in the patched page.\<close>

fun runAction :: "pageState \<Rightarrow> jsstring option \<Rightarrow> pageAction \<Rightarrow> jsstring option" where
  "runAction p captured (CallWriteText t) =
     (if clipboardWriteText p = Some CaptureWriteText then Some t else captured)"
| "runAction p captured CallExecCommand = captured"
| "runAction p captured (DispatchCopy d) =
     (if OnCopy \<in> set (copyListeners p) then (case d of None \<Rightarrow> captured | Some t \<Rightarrow> Some t)
      else captured)"

text \<open>
  The function evaluated in the page: \<open>copyBtn\<close> says whether a copy button was found,
  \<open>actions\<close> is what the page does after the click. The result is the page when the
  promise resolves, and the resolved value (\<open>None\<close> for \<open>null\<close>).
\<close>

definition fetchCopyMarkdown :: "bool \<Rightarrow> pageAction list \<Rightarrow> pageState \<Rightarrow> pageState \<times> jsstring option" where
  "fetchCopyMarkdown copyBtn actions page =
     (if \<not> copyBtn then (page, None)
      else
        let p1 = page\<lparr>copyListeners := addEventListener OnCopy (copyListeners page)\<rparr>;
            originalWriteText = map_option BoundFn (clipboardWriteText p1);
            p2 = (case clipboardWriteText p1 of
                    None \<Rightarrow> p1
                  | Some f \<Rightarrow> p1\<lparr>clipboardWriteText := Some CaptureWriteText\<rparr>);
            originalExecCommand = execCommand p2;
            p3 = p2\<lparr>execCommand := ReturnTrue\<rparr>;
            captured = foldl (runAction p3) None actions;
            p4 = p3\<lparr>copyListeners := removeEventListener OnCopy (copyListeners p3)\<rparr>;
            p5 = (case originalWriteText of
                    None \<Rightarrow> p4
                  | Some f \<Rightarrow> p4\<lparr>clipboardWriteText := Some f\<rparr>);
            p6 = p5\<lparr>execCommand := originalExecCommand\<rparr>
        in (p6, captured))"

section \<open>Properties\<close>

subsection \<open>Evaluation\<close>

text \<open>The equations that evaluate the regular expressions and the normalizer on literals.\<close>

lemma UpTo_numeral: "UpTo (numeral k) r = Opt (Seq r (UpTo (pred_numeral k) r))"
  by (simp add: numeral_eq_Suc)

lemmas rx_eval = UpTo_numeral test_def addPos_def samePos_def inCls_def isWs_def isDigit_def isLineTerminator_def
  Let_def Lit_def Opt_def Plus_def cu_def js_def ws_def

lemmas nm_eval = normalizeMarkdown_def normalizeLines_def normalizeLine_def initState_def push_def appendToLast_def
  joinNl_def trim_def startsWith_def endsWith_def fence3_def countPipes_def isBlockStart_def blockStartRx_def isTableSepLine_def tableSepRx_def

subsection \<open>Trimming, splitting and joining\<close>

lemma cu_pipe [simp]: "cu CHR ''|'' = 124" by (simp add: cu_def)

lemma js_space [simp]: "js '' '' = [32]" by (simp add: js_def)

lemma fence3_eq: "fence3 = [96, 96, 96]" by (simp add: fence3_def js_def)

lemma isWs_32 [simp]: "isWs 32" by (simp add: isWs_def)

lemma not_isWs_96 [simp]: "\<not> isWs 96" by (simp add: isWs_def)

lemma trim_Nil [simp]: "trim [] = []" by (simp add: trim_def)

lemma dropWhile_keeps_last: "dropWhile P xs \<noteq> [] \<Longrightarrow> last (dropWhile P xs) = last xs"
  by (induction xs) (auto split: if_splits)

lemma trim_trimmedStr: 
  assumes ne: "trim s \<noteq> []" shows "trimmedStr (trim s)"
proof -
  let ?a = "dropWhile isWs s"
  let ?b = "dropWhile isWs (rev ?a)"
  from ne have b_ne: "?b \<noteq> []" by (simp add: trim_def)
  have a_ne: "?a \<noteq> []"
  proof
    assume h: "?a = []"
    have "?b = []" unfolding h by simp
    with b_ne show False by simp
  qed
  have hb: "\<not> isWs (hd ?b)" using b_ne by (rule hd_dropWhile)
  have last_t: "last (trim s) = hd ?b" using b_ne by (simp add: trim_def last_rev)
  have ha: "\<not> isWs (hd ?a)" using a_ne by (rule hd_dropWhile)
  have "hd (trim s) = last ?b" using b_ne by (simp add: trim_def hd_rev)
  also have "last ?b = last (rev ?a)" using b_ne by (rule dropWhile_keeps_last)
  also have "\<dots> = hd ?a" using a_ne by (simp add: last_rev)
  finally show ?thesis using ne ha hb last_t by (simp add: trimmedStr_def)
qed

lemma dropWhile_hd_id: "xs \<noteq> [] \<Longrightarrow> \<not> P (hd xs) \<Longrightarrow> dropWhile P xs = xs"
  by (cases xs) auto

lemma trim_id: 
  assumes "trimmedStr t" shows "trim t = t"
proof -
  from assms have t: "t \<noteq> []" "\<not> isWs (hd t)" "\<not> isWs (last t)" by (simp_all add: trimmedStr_def)
  have a: "dropWhile isWs t = t" using t by (simp add: dropWhile_hd_id)
  have "rev t \<noteq> []" "\<not> isWs (hd (rev t))" using t by (simp_all add: hd_rev)
  then have "dropWhile isWs (rev t) = rev t" by (rule dropWhile_hd_id)
  with a show ?thesis by (simp add: trim_def)
qed

lemma trim_idem: "trim (trim s) = trim s"
  by (cases "trim s = []") (simp_all add: trim_id trim_trimmedStr)

lemma set_trim: "set (trim s) \<subseteq> set s"
  by (auto simp: trim_def dest!: set_dropWhileD)

lemma trimmedStr_join: 
  assumes "trimmedStr p" "trimmedStr t" shows "trimmedStr (p @ 32 # t)"
  using assms by (simp add: trimmedStr_def)

lemma trim_join_general:
  assumes p: "trim p \<noteq> []" and t: "trimmedStr t"
  shows "trim (p @ 32 # t) = dropWhile isWs p @ 32 # t"
proof -
  have "dropWhile isWs p \<noteq> []"
  proof
    assume h: "dropWhile isWs p = []"
    have "trim p = []" unfolding trim_def h by simp
    with p show False by simp
  qed
  then have ex: "\<exists>x\<in>set p. \<not> isWs x" by (metis hd_dropWhile hd_in_set set_dropWhileD)
  then have a: "dropWhile isWs (p @ 32 # t) = dropWhile isWs p @ 32 # t"
    by (auto simp: dropWhile_append1)
  from t have "rev t \<noteq> []" "\<not> isWs (hd (rev t))" by (simp_all add: trimmedStr_def hd_rev)
  then have "dropWhile isWs (rev t @ 32 # rev (dropWhile isWs p)) = rev t @ 32 # rev (dropWhile isWs p)"
    by (simp add: dropWhile_hd_id)
  with a show ?thesis by (simp add: trim_def)
qed

lemma trim_prefix_trimStart: "prefix (trim p) (dropWhile isWs p)"
proof -
  have "suffix (dropWhile isWs (rev (dropWhile isWs p))) (rev (dropWhile isWs p))"
    by (rule suffix_dropWhile)
  then show ?thesis unfolding trim_def by (metis rev_rev_ident suffix_to_prefix)
qed

lemma startsWith_prefix: "startsWith s p = prefix p s"
  by (auto simp: startsWith_def prefix_def) (metis append_eq_conv_conj)

lemma isFence_join:
  assumes "isFence p" "trimmedStr t" shows "isFence (p @ 32 # t)"
proof -
  from assms(1) have pf: "prefix fence3 (trim p)" by (simp add: isFence_def startsWith_prefix)
  then have "trim p \<noteq> []" by (auto simp: fence3_eq)
  then have "trim (p @ 32 # t) = dropWhile isWs p @ 32 # t" using assms(2) by (rule trim_join_general)
  moreover have "prefix fence3 (dropWhile isWs p)" using pf trim_prefix_trimStart by (rule prefix_order.trans)
  ultimately show ?thesis by (simp add: isFence_def startsWith_prefix)
qed

lemma not_isFence_join:
  assumes "trimmedStr p" "\<not> isFence p" "trimmedStr t" shows "\<not> isFence (p @ 32 # t)"
proof -
  have tp: "trim p = p" using assms(1) by (rule trim_id)
  have "trim (p @ 32 # t) = p @ 32 # t" using assms by (simp add: trim_id trimmedStr_join)
  moreover have "\<not> prefix fence3 (p @ 32 # t)"
  proof
    assume a: "prefix fence3 (p @ 32 # t)"
    from assms(2) tp have np: "\<not> prefix fence3 p" by (simp add: isFence_def startsWith_prefix)
    from a np obtain us where us0: "fence3 = p @ us" "prefix us (32 # t)"
      by (auto simp: prefix_append)
    with np have "us \<noteq> []" by auto
    with us0 have us: "us \<noteq> []" "prefix us (32 # t)" "fence3 = p @ us" by simp_all
    then have "32 \<in> set us" by (cases us) auto
    then have "32 \<in> set (p @ us)" by simp
    then have "32 \<in> set fence3" by (simp only: us(3))
    then show False by (simp add: fence3_eq)
  qed
  ultimately show ?thesis by (simp add: isFence_def startsWith_prefix)
qed

lemma splitNl_nonempty [simp]: "splitNl s \<noteq> []"
  by (induction s) (auto split: list.splits)

lemma splitNl_no_nl: "l \<in> set (splitNl s) \<Longrightarrow> 10 \<notin> set l"
proof (induction s arbitrary: l)
  case Nil then show ?case by simp
next
  case (Cons c cs)
  obtain h t where ht: "splitNl cs = h # t" by (cases "splitNl cs") auto
  with Cons show ?case by (auto split: if_splits)
qed

lemma splitNl_chars: "l \<in> set (splitNl s) \<Longrightarrow> set l \<subseteq> set s"
proof (induction s arbitrary: l)
  case Nil then show ?case by simp
next
  case (Cons c cs)
  obtain h t where ht: "splitNl cs = h # t" by (cases "splitNl cs") auto
  have h: "set h \<subseteq> set cs" using Cons.IH[of h] ht by simp
  have t: "\<And>x. x \<in> set t \<Longrightarrow> set x \<subseteq> set cs" using Cons.IH ht by simp
  from Cons.prems ht h t show ?case by (auto split: if_splits)
qed

lemma splitNl_append_nl: "10 \<notin> set x \<Longrightarrow> splitNl (x @ 10 # r) = x # splitNl r"
  by (induction x) (auto split: list.splits)

lemma splitNl_no_nl_id: "10 \<notin> set x \<Longrightarrow> splitNl x = [x]"
  by (induction x) (auto split: list.splits)

lemma splitNl_joinNl: "xs \<noteq> [] \<Longrightarrow> \<forall>x\<in>set xs. 10 \<notin> set x \<Longrightarrow> splitNl (joinNl xs) = xs"
  unfolding joinNl_def
proof (induction "[10::nat]" xs rule: joinWith.induct)
  case 1 then show ?case by simp
next
  case (2 x) then show ?case by (simp add: splitNl_no_nl_id)
next
  case (3 x y ys) then show ?case by (simp add: splitNl_append_nl)
qed

lemma countPipesFrom_0: "124 \<notin> set l \<Longrightarrow> countPipesFrom p l = 0"
  by (induction l arbitrary: p) auto

lemma countPipes_0: "124 \<notin> set l \<Longrightarrow> countPipes l = 0"
  by (simp add: countPipes_def countPipesFrom_0)

text \<open>The loop body on a line without pipes, outside a table.\<close>

lemma normalizeLine_plain:
  assumes "countPipes l = 0" "\<not> inTable st"
  shows "normalizeLine st l nxt =
     (if isFence l then push (st\<lparr>inFence := \<not> inFence st\<rparr>) l
      else if inFence st then push st l
      else if trim l = [] then push st []
      else if isBlockStart l then push st l
      else if joinable (out st) then st\<lparr>out := butlast (out st) @ [last (out st) @ 32 # trim l]\<rparr>
      else push st (trim l))"
  using assms by (simp add: normalizeLine_def Let_def isFence_def joinable_def)

lemma plain_keeps_table:
  assumes "countPipes l = 0" "\<not> inTable st"
  shows "inTable (normalizeLine st l nxt) = False" "tablePipeCount (normalizeLine st l nxt) = tablePipeCount st"
  using assms by (simp_all add: normalizeLine_plain push_def)

lemma scanLines_plain:
  "\<forall>l\<in>set ls. countPipes l = 0 \<Longrightarrow> \<not> inTable st \<Longrightarrow> scanLines st ls e = foldl plainStep st ls"
proof (induction st ls e rule: scanLines.induct)
  case (1 st e) then show ?case by simp
next
  case (2 st l e) then show ?case by (simp add: plainStep_def normalizeLine_plain)
next
  case (3 st l m ls e)
  have "normalizeLine st l m = plainStep st l" using 3(2,3) by (simp add: plainStep_def normalizeLine_plain)
  moreover have "\<not> inTable (normalizeLine st l m)" using 3(2,3) by (simp add: plain_keeps_table)
  ultimately show ?case using 3 by simp
qed

lemma runPlain_snoc: "runPlain (xs @ [x]) = plainStep (runPlain xs) x"
  by (simp add: runPlain_def)

lemma plain_frame:
  assumes "countPipes l = 0" "\<not> inTable st"
  shows "plainStep st l = st\<lparr>out := out (plainStep st l), inFence := inFence (plainStep st l)\<rparr>"
  using assms by (simp add: plainStep_def normalizeLine_plain push_def)

lemma stable_init: "stable initState"
  by (simp add: stable_def initState_def runPlain_def)

lemma stable_push:
  assumes st: "stable st" and l: "124 \<notin> set l" and x: "124 \<notin> set x"
    and o: "out (plainStep st l) = out st @ [x]" and same: "plainStep st x = plainStep st l"
  shows "stable (plainStep st l)"
proof -
  from st have nt: "\<not> inTable st" and pf: "\<forall>y\<in>set (out st). 124 \<notin> set y"
    and run: "runPlain (out st) = st" by (auto simp: stable_def)
  have cp: "countPipes l = 0" using l by (rule countPipes_0)
  let ?s = "plainStep st l"
  have a: "\<not> inTable ?s" using cp nt by (simp add: plainStep_def plain_keeps_table)
  have b: "\<forall>y\<in>set (out ?s). 124 \<notin> set y" using pf x o by simp
  have c: "runPlain (out ?s) = ?s" using o run same by (simp add: runPlain_snoc)
  have "st = ?s\<lparr>out := out st, inFence := inFence st\<rparr>"
    using plain_frame[OF cp nt] by (metis nstate.surjective nstate.update_convs(1) nstate.update_convs(2) old.unit.exhaust)
  then have d: "runPlain (butlast (out ?s)) = ?s\<lparr>out := butlast (out ?s), inFence := inFence st\<rparr>"
    using o run by simp
  show ?thesis unfolding stable_def using a b c d by blast
qed

lemma isFence_Nil [simp]: "\<not> isFence []"
  by (simp add: isFence_def startsWith_def fence3_eq)

lemma isFence_trim: "isFence (trim l) = isFence l"
  by (simp add: isFence_def trim_idem)

lemma stable_join:
  assumes st: "stable st" and l: "124 \<notin> set l"
    and nf: "\<not> isFence l" "\<not> inFence st" and t: "trim l \<noteq> []" and j: "joinable (out st)"
    and eq: "plainStep st l = st\<lparr>out := butlast (out st) @ [last (out st) @ 32 # trim l]\<rparr>"
  shows "stable (plainStep st l)"
proof -
  from st have nt: "\<not> inTable st" and pf: "\<forall>y\<in>set (out st). 124 \<notin> set y"
    and run: "runPlain (out st) = st" by (auto simp: stable_def)
  from j have one: "out st \<noteq> []" and pne: "last (out st) \<noteq> []" and pnb: "\<not> isBlockStart (last (out st))"
    by (simp_all add: joinable_def)
  define o0 where "o0 = butlast (out st)"
  define p where "p = last (out st)"
  define t where "t = trim l"
  define p' where "p' = p @ 32 # t"
  have osplit: "out st = o0 @ [p]" using one by (simp add: o0_def p_def)
  from st one obtain f0 where f0: "runPlain o0 = st\<lparr>out := o0, inFence := f0\<rparr>"
    by (auto simp: stable_def o0_def)
  define S0 where "S0 = st\<lparr>out := o0, inFence := f0\<rparr>"
  have S0: "runPlain o0 = S0" "out S0 = o0" "inFence S0 = f0" "\<not> inTable S0" using f0 nt by (simp_all add: S0_def)
  have step_p: "plainStep S0 p = st" using run osplit S0 by (simp add: runPlain_snoc)
  have tt: "trimmedStr t" using t unfolding t_def by (rule trim_trimmedStr)
  have pp: "124 \<notin> set p" using pf osplit by simp
  have cpp: "countPipes p = 0" using pp by (rule countPipes_0)
  have tpipe: "124 \<notin> set t" using l set_trim[of l] by (auto simp: t_def)
  have pp': "124 \<notin> set p'" using pp tpipe by (simp add: p'_def)
  have cpp': "countPipes p' = 0" using pp' by (rule countPipes_0)
  have new: "plainStep st l = st\<lparr>out := o0 @ [p']\<rparr>" using eq by (simp add: o0_def p_def t_def p'_def)
  have goal: "plainStep S0 p' = st\<lparr>out := o0 @ [p']\<rparr>"
  proof (cases "isFence p")
    case True
    then have e1: "st = push (S0\<lparr>inFence := \<not> f0\<rparr>) p" using step_p S0 cpp
      by (simp add: plainStep_def normalizeLine_plain)
    have "inFence (push (S0\<lparr>inFence := \<not> f0\<rparr>) p) = (\<not> f0)" by (simp add: push_def)
    with e1 have e2: "inFence st = (\<not> f0)" by simp
    have "isFence p'" unfolding p'_def using True tt by (rule isFence_join)
    then have "plainStep S0 p' = push (S0\<lparr>inFence := \<not> f0\<rparr>) p'" using S0 cpp'
      by (simp add: plainStep_def normalizeLine_plain)
    also have "\<dots> = st\<lparr>out := o0 @ [p'], inFence := inFence st\<rparr>" using e2 by (simp add: push_def S0_def)
    also have "\<dots> = st\<lparr>out := o0 @ [p']\<rparr>" by simp
    finally show ?thesis .
  next
    case False
    have f0F: "\<not> f0"
    proof
      assume "f0"
      then have "st = push S0 p" using step_p S0 cpp False by (simp add: plainStep_def normalizeLine_plain)
      then have "inFence st" using \<open>f0\<close> S0 by (simp add: push_def)
      with nf show False by simp
    qed
    have tp: "trim p \<noteq> []"
    proof
      assume "trim p = []"
      then have "st = push S0 []" using step_p S0 cpp False f0F by (simp add: plainStep_def normalizeLine_plain)
      then have "out st = o0 @ [[]]" using S0 by (simp add: push_def)
      with osplit pne show False by (simp add: p_def)
    qed
    have nj: "\<not> joinable o0"
    proof
      assume jj: "joinable o0"
      then have "st = S0\<lparr>out := butlast o0 @ [last o0 @ 32 # trim p]\<rparr>" using step_p S0 cpp False f0F tp pnb
        by (simp add: plainStep_def normalizeLine_plain p_def)
      then have "length (out st) = length o0" using jj by (simp add: joinable_def)
      with osplit show False by simp
    qed
    have "st = push S0 (trim p)" using step_p S0 cpp False f0F tp pnb nj
      by (simp add: plainStep_def normalizeLine_plain p_def)
    then have "out st = o0 @ [trim p]" using S0 by (simp add: push_def)
    with osplit have ptrim: "trim p = p" by simp
    with tp have tsp: "trimmedStr p" using trim_trimmedStr[of p] by simp
    have tsp': "trimmedStr p'" unfolding p'_def using tsp tt by (rule trimmedStr_join)
    have trp': "trim p' = p'" using tsp' by (rule trim_id)
    have nfp': "\<not> isFence p'" unfolding p'_def using tsp False tt by (rule not_isFence_join)
    have p'ne: "p' \<noteq> []" by (simp add: p'_def)
    have "plainStep S0 p' = push S0 p'" using S0 cpp' nfp' f0F trp' p'ne nj
      by (simp add: plainStep_def normalizeLine_plain)
    then show ?thesis using f0F nf by (simp add: push_def S0_def)
  qed
  have a: "\<not> inTable (plainStep st l)" using nt new by simp
  have b: "\<forall>y\<in>set (out (plainStep st l)). 124 \<notin> set y" using pf pp' new osplit by auto
  have c: "runPlain (out (plainStep st l)) = plainStep st l" using new goal S0 by (simp add: runPlain_snoc)
  have d: "runPlain (butlast (out (plainStep st l))) = (plainStep st l)\<lparr>out := butlast (out (plainStep st l)), inFence := f0\<rparr>"
    using new f0 by simp
  show ?thesis unfolding stable_def using a b c d by blast
qed

lemma stable_step:
  assumes st: "stable st" and l: "124 \<notin> set l"
  shows "stable (plainStep st l)"
proof -
  from st have nt: "\<not> inTable st" by (simp add: stable_def)
  have cp: "countPipes l = 0" using l by (rule countPipes_0)
  note ps = plainStep_def normalizeLine_plain[OF cp nt]
  have tpipe: "124 \<notin> set (trim l)" using l set_trim[of l] by auto
  have cpt: "countPipes (trim l) = 0" using tpipe by (rule countPipes_0)
  consider (raw) "isFence l \<or> inFence st \<or> (trim l \<noteq> [] \<and> isBlockStart l)"
    | (blank) "\<not> isFence l" "\<not> inFence st" "trim l = []"
    | (join) "\<not> isFence l" "\<not> inFence st" "trim l \<noteq> []" "\<not> isBlockStart l" "joinable (out st)"
    | (new) "\<not> isFence l" "\<not> inFence st" "trim l \<noteq> []" "\<not> isBlockStart l" "\<not> joinable (out st)"
    by blast
  then show ?thesis
  proof cases
    case raw
    then have "out (plainStep st l) = out st @ [l]" by (auto simp: ps push_def)
    with st l show ?thesis by (intro stable_push[where x = l]) simp_all
  next
    case blank
    then have o: "out (plainStep st l) = out st @ [[]]" by (simp add: ps push_def)
    have "plainStep st [] = push st []" using blank nt
      by (simp add: plainStep_def normalizeLine_plain countPipes_def)
    moreover have "plainStep st l = push st []" using blank by (simp add: ps)
    ultimately have "plainStep st [] = plainStep st l" by simp
    with st l o show ?thesis by (intro stable_push[where x = "[]"]) simp_all
  next
    case new
    then have o: "out (plainStep st l) = out st @ [trim l]" by (simp add: ps push_def)
    have "plainStep st (trim l) = push st (trim l)" using new nt cpt
      by (simp add: plainStep_def normalizeLine_plain isFence_trim trim_idem)
    moreover have "plainStep st l = push st (trim l)" using new by (simp add: ps)
    ultimately have "plainStep st (trim l) = plainStep st l" by simp
    with st l o tpipe show ?thesis by (intro stable_push[where x = "trim l"]) simp_all
  next
    case join
    then have "plainStep st l = st\<lparr>out := butlast (out st) @ [last (out st) @ 32 # trim l]\<rparr>"
      by (simp add: ps)
    with st l join show ?thesis by (intro stable_join) simp_all
  qed
qed

lemma plainStep_no_nl:
  assumes "\<forall>x\<in>set (out st). 10 \<notin> set x" "10 \<notin> set l" "countPipes l = 0" "\<not> inTable st"
  shows "\<forall>x\<in>set (out (plainStep st l)). 10 \<notin> set x"
proof -
  have t: "10 \<notin> set (trim l)" using assms(2) set_trim[of l] by auto
  have b: "\<And>x. x \<in> set (butlast (out st)) \<Longrightarrow> 10 \<notin> set x" using assms(1) by (auto dest: in_set_butlastD)
  have c: "joinable (out st) \<Longrightarrow> 10 \<notin> set (last (out st))" using assms(1) by (simp add: joinable_def)
  show ?thesis using assms t b c
    by (auto simp: plainStep_def normalizeLine_plain push_def)
qed

lemma plainStep_out_nonempty:
  assumes "countPipes l = 0" "\<not> inTable st"
  shows "out (plainStep st l) \<noteq> []"
  using assms by (simp add: plainStep_def normalizeLine_plain push_def)

lemma foldl_plainStep_inv:
  assumes "stable st" "\<forall>x\<in>set (out st). 10 \<notin> set x" "\<forall>l\<in>set ls. 124 \<notin> set l \<and> 10 \<notin> set l"
  shows "stable (foldl plainStep st ls) \<and> (\<forall>x\<in>set (out (foldl plainStep st ls)). 10 \<notin> set x)
     \<and> (ls \<noteq> [] \<longrightarrow> out (foldl plainStep st ls) \<noteq> [])"
  using assms
proof (induction ls arbitrary: st rule: rev_induct)
  case Nil then show ?case by simp
next
  case (snoc l ls)
  then have ih: "stable (foldl plainStep st ls)" "\<forall>x\<in>set (out (foldl plainStep st ls)). 10 \<notin> set x"
    by simp_all
  from snoc.prems have l: "124 \<notin> set l" "10 \<notin> set l" by simp_all
  have cp: "countPipes l = 0" using l(1) by (rule countPipes_0)
  have nt: "\<not> inTable (foldl plainStep st ls)" using ih(1) by (simp add: stable_def)
  show ?case using stable_step[OF ih(1) l(1)] plainStep_no_nl[OF ih(2) l(2) cp nt] plainStep_out_nonempty[OF cp nt]
    by simp
qed

text \<open>
  Claim C1, as amended. The normalizer is idempotent on every text without a pipe
  character: \<open>normalizeMarkdown (normalizeMarkdown x) = normalizeMarkdown x\<close>. (With
  pipes it is not: a continuation line merged into a table's separator row makes the
  second pass no longer see a table.)
\<close>

theorem normalizeMarkdown_idempotent_without_pipes:
  assumes "cu CHR ''|'' \<notin> set doc"
  shows "normalizeMarkdown (normalizeMarkdown doc) = normalizeMarkdown doc"
proof -
  define ls where "ls = splitNl doc"
  have lsp: "\<forall>l\<in>set ls. 124 \<notin> set l \<and> 10 \<notin> set l"
    using assms splitNl_chars[of _ doc] splitNl_no_nl[of _ doc] by (auto simp: ls_def)
  then have cps: "\<forall>l\<in>set ls. countPipes l = 0" by (simp add: countPipes_0)
  have ne: "ls \<noteq> []" by (simp add: ls_def)
  define st where "st = foldl plainStep initState ls"
  have nl: "normalizeLines ls = st"
    using cps by (simp add: normalizeLines_def st_def scanLines_plain initState_def)
  have inv: "stable st" "\<forall>x\<in>set (out st). 10 \<notin> set x" "out st \<noteq> []"
    using foldl_plainStep_inv[OF stable_init _ lsp] ne by (simp_all add: st_def initState_def)
  have first: "normalizeMarkdown doc = joinNl (out st)"
    using nl by (simp add: normalizeMarkdown_def ls_def)
  have sp: "splitNl (joinNl (out st)) = out st" using inv(3,2) by (rule splitNl_joinNl)
  have "\<forall>x\<in>set (out st). countPipes x = 0" using inv(1) by (simp add: stable_def countPipes_0)
  then have "normalizeLines (out st) = runPlain (out st)"
    by (simp add: normalizeLines_def runPlain_def scanLines_plain initState_def)
  also have "\<dots> = st" using inv(1) by (simp add: stable_def)
  finally have "normalizeMarkdown (joinNl (out st)) = joinNl (out st)"
    using sp by (simp add: normalizeMarkdown_def)
  with first show ?thesis by simp
qed

theorem normalizeMarkdown_idempotent_without_pipes_witness:
  "cu CHR ''|'' \<notin> set (js ''a  \<newline> b\<newline>\<newline>- c\<newline>d\<newline>```\<newline>  x\<newline>``` \<newline>e'')
   \<and> normalizeMarkdown (js ''a  \<newline> b\<newline>\<newline>- c\<newline>d\<newline>```\<newline>  x\<newline>``` \<newline>e'')
       = js ''a b\<newline>\<newline>- c\<newline>d\<newline>```\<newline>  x\<newline>```  e''
   \<and> normalizeMarkdown (js ''a b\<newline>\<newline>- c\<newline>d\<newline>```\<newline>  x\<newline>```  e'')
       = js ''a b\<newline>\<newline>- c\<newline>d\<newline>```\<newline>  x\<newline>```  e''"
proof -
  have h: "cu CHR ''|'' \<notin> set (js ''a  \<newline> b\<newline>\<newline>- c\<newline>d\<newline>```\<newline>  x\<newline>``` \<newline>e'')"
    by (simp add: cu_def js_def)
  have v: "normalizeMarkdown (js ''a  \<newline> b\<newline>\<newline>- c\<newline>d\<newline>```\<newline>  x\<newline>``` \<newline>e'')
       = js ''a b\<newline>\<newline>- c\<newline>d\<newline>```\<newline>  x\<newline>```  e''"
    by (simp add: nm_eval rx_eval)
  from normalizeMarkdown_idempotent_without_pipes[OF h] v h show ?thesis by simp
qed

text \<open>
  Claim C1 as stated fails on a two-column table whose last row is wrapped: the two
  parts of the row have fewer pipes than the header and are appended to the separator
  row; the result has no separator row any more, and normalizing it again joins its two
  lines into one.
\<close>

theorem normalizeMarkdown_not_idempotent:
  "normalizeMarkdown (js ''| a | b |\<newline>|---|---|\<newline>| c | d\<newline>e |'')
     = js ''| a | b |\<newline>|---|---| | c | d e |''
   \<and> normalizeMarkdown (js ''| a | b |\<newline>|---|---| | c | d e |'')
     = js ''| a | b | |---|---| | c | d e |''
   \<and> normalizeMarkdown (normalizeMarkdown (js ''| a | b |\<newline>|---|---|\<newline>| c | d\<newline>e |''))
     \<noteq> normalizeMarkdown (js ''| a | b |\<newline>|---|---|\<newline>| c | d\<newline>e |'')"
proof -
  have a: "normalizeMarkdown (js ''| a | b |\<newline>|---|---|\<newline>| c | d\<newline>e |'')
     = js ''| a | b |\<newline>|---|---| | c | d e |''" by (simp add: nm_eval rx_eval)
  have b: "normalizeMarkdown (js ''| a | b |\<newline>|---|---| | c | d e |'')
     = js ''| a | b | |---|---| | c | d e |''" by (simp add: nm_eval rx_eval)
  show ?thesis unfolding a b by (simp add: js_def)
qed

subsection \<open>Fenced code blocks\<close>

lemma scanLines_Cons:
  "scanLines st (l # ls) e = scanLines (normalizeLine st l (case ls of [] \<Rightarrow> e | m # _ \<Rightarrow> m)) ls e"
  by (cases ls) simp_all

lemma scanLines_append:
  "scanLines st (xs @ y # ys) e = scanLines (scanLines st xs y) (y # ys) e"
proof (induction st xs y rule: scanLines.induct)
  case (1 st e) then show ?case by simp
next
  case (2 st l e) then show ?case by simp
next
  case (3 st l m ls e) then show ?case by simp
qed

lemma normalizeLine_inFence:
  "inFence (normalizeLine st l n) = (if isFence l then \<not> inFence st else inFence st)"
  by (simp add: normalizeLine_def Let_def isFence_def push_def appendToLast_def)

lemma scanLines_inFence:
  "inFence (scanLines st ls e) = (inFence st \<noteq> odd (length (filter isFence ls)))"
proof (induction st ls e rule: scanLines.induct)
  case (1 st e) then show ?case by simp
next
  case (2 st l e) then show ?case by (simp add: normalizeLine_inFence)
next
  case (3 st l m ls e) then show ?case by (auto simp add: normalizeLine_inFence)
qed

lemma normalizeLine_fence:
  "isFence l \<Longrightarrow> normalizeLine st l n = push (st\<lparr>inFence := \<not> inFence st\<rparr>) l"
  by (simp add: normalizeLine_def Let_def isFence_def)

lemma normalizeLine_in_fence:
  "\<not> isFence l \<Longrightarrow> inFence st \<Longrightarrow> normalizeLine st l n = push st l"
  by (simp add: normalizeLine_def Let_def isFence_def)

lemma scanLines_in_fence:
  "inFence st \<Longrightarrow> \<forall>l\<in>set ls. \<not> isFence l \<Longrightarrow> scanLines st ls e = st\<lparr>out := out st @ ls\<rparr>"
proof (induction st ls e rule: scanLines.induct)
  case (1 st e) then show ?case by simp
next
  case (2 st l e) then show ?case by (simp add: normalizeLine_in_fence push_def)
next
  case (3 st l m ls e)
  then show ?case by (simp add: normalizeLine_in_fence push_def)
qed

lemma keeps_butlast:
  assumes "out st = A @ c # rest" "prefix x c"
  shows "\<exists>c' rest'. butlast (out st) @ [last (out st) @ t] = A @ c' # rest' \<and> prefix x c'"
proof (cases "rest = []")
  case True
  with assms show ?thesis by (auto simp: butlast_append)
next
  case False
  with assms have "butlast (out st) @ [last (out st) @ t] = A @ c # (butlast rest @ [last rest @ t])"
    by (simp add: butlast_append)
  with assms show ?thesis by blast
qed

lemma keeps_step:
  assumes "keeps A x st" shows "keeps A x (normalizeLine st l n)"
proof -
  from assms obtain c rest where o: "out st = A @ c # rest" "prefix x c" by (auto simp: keeps_def)
  have p: "\<And>s y. out s = out st \<Longrightarrow> keeps A x (push s y)"
    using o by (auto simp: keeps_def push_def)
  have ne: "out st \<noteq> []" using o by simp
  have j: "\<And>t. keeps A x (st\<lparr>out := butlast (out st) @ [last (out st) @ t]\<rparr>)"
    using keeps_butlast[OF o] by (simp add: keeps_def)
  show ?thesis
    using p j[of "js '' '' @ trim l"] ne by (simp add: normalizeLine_def Let_def appendToLast_def)
qed

lemma keeps_scan: "keeps A x st \<Longrightarrow> keeps A x (scanLines st ls e)"
proof (induction st ls e rule: scanLines.induct)
  case (1 st e) then show ?case by simp
next
  case (2 st l e) then show ?case by (simp add: keeps_step)
next
  case (3 st l m ls e) then show ?case by (simp add: keeps_step)
qed

text \<open>
  Claim C2. Let the lines of the text be \<open>pre\<close>, an opening fence line, the content
  lines (none of them a fence line), a closing fence line, and \<open>post\<close>, where the
  opening line is a real opener: an even number of fence lines precedes it. Then the
  normalized text consists of the output for \<open>pre\<close>, the opening line, every content
  line byte for byte, and then a line that starts with the closing line (later text can
  only be appended to it), followed by the rest. Fence mode is off before the opening
  line and on after it, and any fence line toggles it.
\<close>

theorem fenced_block_passes_through:
  assumes lines: "splitNl doc = pre @ opener # content @ closer # post"
    and ev: "even (length (filter isFence pre))"
    and op: "isFence opener" and cl: "isFence closer"
    and body: "\<forall>l\<in>set content. \<not> isFence l"
  shows "(\<exists>c after. normalizeMarkdown doc =
            joinNl (out (scanLines initState pre opener) @ opener # content @ c # after)
          \<and> prefix closer c)
       \<and> \<not> inFence (scanLines initState pre opener)
       \<and> inFence (scanLines initState (pre @ [opener]) (hd (content @ [closer])))
       \<and> (\<forall>st l n. isFence l \<longrightarrow> inFence (normalizeLine st l n) = (\<not> inFence st))"
proof -
  define S1 where "S1 = scanLines initState pre opener"
  have f1: "\<not> inFence S1" using ev by (simp add: S1_def scanLines_inFence initState_def)
  define S2 where "S2 = push (S1\<lparr>inFence := True\<rparr>) opener"
  define S3 where "S3 = S2\<lparr>out := out S2 @ content\<rparr>"
  define S4 where "S4 = push (S3\<lparr>inFence := False\<rparr>) closer"
  have s2: "\<And>n. normalizeLine S1 opener n = S2" using op f1 by (simp add: normalizeLine_fence S2_def)
  have in2: "inFence S2" by (simp add: S2_def push_def)
  have s3: "scanLines S2 content closer = S3" using in2 body by (simp add: scanLines_in_fence S3_def)
  have in3: "inFence S3" using in2 by (simp add: S3_def)
  have s4: "\<And>n. normalizeLine S3 closer n = S4" using cl in3 by (simp add: normalizeLine_fence S4_def)
  have "normalizeLines (splitNl doc) = scanLines S1 (opener # content @ closer # post) []"
    unfolding lines normalizeLines_def S1_def by (rule scanLines_append)
  also have "\<dots> = scanLines S2 (content @ closer # post) []"
    by (simp only: scanLines_Cons s2)
  also have "\<dots> = scanLines S3 (closer # post) []"
    by (simp only: scanLines_append s3)
  also have "\<dots> = scanLines S4 post []"
    by (simp only: scanLines_Cons s4)
  finally have fin: "normalizeLines (splitNl doc) = scanLines S4 post []" .
  have "out S4 = (out S1 @ opener # content) @ closer # []"
    by (simp add: S4_def S3_def S2_def push_def)
  then have "keeps (out S1 @ opener # content) closer S4" unfolding keeps_def by blast
  then have "keeps (out S1 @ opener # content) closer (scanLines S4 post [])" by (rule keeps_scan)
  then obtain c after where "out (scanLines S4 post []) = (out S1 @ opener # content) @ c # after" "prefix closer c"
    unfolding keeps_def by blast
  then have a: "\<exists>c after. normalizeMarkdown doc = joinNl (out S1 @ opener # content @ c # after) \<and> prefix closer c"
    using fin by (auto simp: normalizeMarkdown_def)
  have "scanLines initState (pre @ [opener]) (hd (content @ [closer])) = S2"
    using scanLines_append[of initState pre opener "[]"] s2 by (simp add: S1_def)
  then have b: "inFence (scanLines initState (pre @ [opener]) (hd (content @ [closer])))" using in2 by simp
  show ?thesis using a b f1 by (simp add: S1_def normalizeLine_inFence)
qed

lemma isFence_eval: "isFence l = (take (Suc (Suc (Suc 0))) (trim l) = [96, 96, 96])"
  by (simp add: isFence_def startsWith_def fence3_def js_def)

theorem fenced_block_passes_through_witness:
  "splitNl (js ''x\<newline>```js\<newline> a | b\<newline>\<newline>```\<newline>y'')
     = [js ''x''] @ js ''```js'' # [js '' a | b'', []] @ js ''```'' # [js ''y'']
   \<and> (\<exists>c after. normalizeMarkdown (js ''x\<newline>```js\<newline> a | b\<newline>\<newline>```\<newline>y'') =
         joinNl (out (scanLines initState [js ''x''] (js ''```js'')) @ js ''```js'' # [js '' a | b'', []] @ c # after)
       \<and> prefix (js ''```'') c)
   \<and> normalizeMarkdown (js ''x\<newline>```js\<newline> a | b\<newline>\<newline>```\<newline>y'')
       = js ''x\<newline>```js\<newline> a | b\<newline>\<newline>``` y''"
proof -
  have l: "splitNl (js ''x\<newline>```js\<newline> a | b\<newline>\<newline>```\<newline>y'')
     = [js ''x''] @ js ''```js'' # [js '' a | b'', []] @ js ''```'' # [js ''y'']"
    by (simp add: js_def)
  have e: "even (length (filter isFence [js ''x'']))" by (simp add: isFence_eval trim_def js_def isWs_def)
  have o: "isFence (js ''```js'')" by (simp add: isFence_eval trim_def js_def isWs_def)
  have c: "isFence (js ''```'')" by (simp add: isFence_eval trim_def js_def isWs_def)
  have b: "\<forall>l\<in>set [js '' a | b'', []]. \<not> isFence l" by (simp add: isFence_eval trim_def js_def isWs_def)
  have v: "normalizeMarkdown (js ''x\<newline>```js\<newline> a | b\<newline>\<newline>```\<newline>y'')
       = js ''x\<newline>```js\<newline> a | b\<newline>\<newline>``` y''"
    by (simp add: nm_eval rx_eval)
  from fenced_block_passes_through[OF l e o c b] l v show ?thesis by blast
qed

subsection \<open>Soft-wrapped continuation lines\<close>

lemma endsWith_last:
  assumes "endsWith s p" "p \<noteq> []" shows "s \<noteq> [] \<and> last s = last p"
proof -
  from assms(1) have d: "drop (length s - length p) s = p" by (simp add: endsWith_def)
  have "s = take (length s - length p) s @ drop (length s - length p) s" by simp
  then have "s = take (length s - length p) s @ p" using d by simp
  then show ?thesis using assms(2) by (metis append_is_Nil_conv last_appendR)
qed

lemma trim_not_hard_break: "\<not> endsWith (trim s) (js ''  '')"
proof
  assume a: "endsWith (trim s) (js ''  '')"
  then have "trim s \<noteq> []" "last (trim s) = 32" using endsWith_last[of "trim s" "js ''  ''"] by (simp_all add: js_def)
  moreover then have "\<not> isWs (last (trim s))" using trim_trimmedStr[of s] by (simp add: trimmedStr_def)
  ultimately show False by simp
qed

text \<open>
  Claim C6, as amended. Outside fences and tables, a non-blank line that is not a block
  start is emitted trimmed as a new line when the output is empty, or its last line is
  empty, or its last line is a block start; otherwise, when that last line does not end
  in two spaces, the trimmed line is appended to it after a single space. (What happens
  after a last line that ends in two spaces is left open here.)
\<close>

theorem soft_wrap_continuation:
  assumes "\<not> isFence line" "\<not> inFence st" "\<not> inTable st"
    and "\<not> (2 \<le> countPipes line \<and> isTableSepLine next)"
    and "trim line \<noteq> []" "\<not> isBlockStart line"
  shows "(out st = [] \<or> last (out st) = [] \<or> isBlockStart (last (out st))
            \<longrightarrow> normalizeLine st line next = push st (trim line))
       \<and> (out st \<noteq> [] \<and> last (out st) \<noteq> [] \<and> \<not> isBlockStart (last (out st))
            \<and> \<not> endsWith (last (out st)) (js ''  '')
            \<longrightarrow> normalizeLine st line next
                = st\<lparr>out := butlast (out st) @ [last (out st) @ js '' '' @ trim line]\<rparr>)"
  using assms by (auto simp add: normalizeLine_def Let_def isFence_def trim_not_hard_break)

theorem soft_wrap_continuation_witness:
  "normalizeLine \<lparr>out = [js ''- a''], inFence = False, inTable = False, tablePipeCount = 0\<rparr> (js '' b '') []
     = \<lparr>out = [js ''- a'', js ''b''], inFence = False, inTable = False, tablePipeCount = 0\<rparr>
   \<and> normalizeLine \<lparr>out = [js ''a''], inFence = False, inTable = False, tablePipeCount = 0\<rparr> (js '' b '') []
     = \<lparr>out = [js ''a b''], inFence = False, inTable = False, tablePipeCount = 0\<rparr>"
proof -
  have l: "\<not> isFence (js '' b '')" "\<not> (2 \<le> countPipes (js '' b '') \<and> isTableSepLine [])"
     "trim (js '' b '') \<noteq> []" "\<not> isBlockStart (js '' b '')"
    by (simp_all add: isFence_eval nm_eval rx_eval)
  have t: "trim (js '' b '') = js ''b''" by (simp add: trim_def js_def isWs_def)
  have b1: "isBlockStart (js ''- a'')" by (simp add: nm_eval rx_eval)
  have b2: "\<not> isBlockStart (js ''a'')" "\<not> endsWith (js ''a'') (js ''  '')" by (simp_all add: nm_eval rx_eval)
  from soft_wrap_continuation[of "js '' b ''"
         "\<lparr>out = [js ''- a''], inFence = False, inTable = False, tablePipeCount = 0\<rparr>" "[]", OF l(1) _ _ l(2) l(3) l(4)]
       b1
  have x: "normalizeLine \<lparr>out = [js ''- a''], inFence = False, inTable = False, tablePipeCount = 0\<rparr> (js '' b '') []
     = \<lparr>out = [js ''- a'', js ''b''], inFence = False, inTable = False, tablePipeCount = 0\<rparr>"
    by (simp add: t push_def)
  from soft_wrap_continuation[of "js '' b ''"
         "\<lparr>out = [js ''a''], inFence = False, inTable = False, tablePipeCount = 0\<rparr>" "[]", OF l(1) _ _ l(2) l(3) l(4)]
       b2
  have y: "normalizeLine \<lparr>out = [js ''a''], inFence = False, inTable = False, tablePipeCount = 0\<rparr> (js '' b '') []
     = \<lparr>out = [js ''a b''], inFence = False, inTable = False, tablePipeCount = 0\<rparr>"
    by (simp add: t) (simp add: js_def)
  from x y show ?thesis by simp
qed

text \<open>
  Claim C6 as stated fails after a blank line: the output \<open>a\<close>, \<open>''\<close> is not empty,
  its last line is neither a block start nor ends in two spaces, and yet \<open>b\<close> is
  emitted as a new line, not appended to the last line.
\<close>

theorem blank_previous_line_starts_new_line:
  "normalizeLines [js ''a'', []] = \<lparr>out = [js ''a'', []], inFence = False, inTable = False, tablePipeCount = 0\<rparr>
   \<and> trim (js ''b'') \<noteq> [] \<and> \<not> isBlockStart (js ''b'') \<and> \<not> isBlockStart [] \<and> \<not> endsWith [] (js ''  '')
   \<and> out (normalizeLine (normalizeLines [js ''a'', []]) (js ''b'') []) = [js ''a'', [], js ''b'']
   \<and> out (normalizeLine (normalizeLines [js ''a'', []]) (js ''b'') []) \<noteq> [js ''a'', [] @ js '' '' @ js ''b'']
   \<and> normalizeMarkdown (js ''a\<newline>\<newline>b'') = js ''a\<newline>\<newline>b''"
  by (simp add: nm_eval rx_eval)

subsection \<open>The final text\<close>

text \<open>
  Claim C3. The final text is the copy-action result when that has a non-whitespace
  character and looks like Markdown; it is the DOM walker's result when the copy action
  resolved \<open>null\<close>, the empty string or whitespace only; when the copy-action result has
  a non-whitespace character but does not look like Markdown, the walker's result
  replaces it if that has a non-whitespace character, and otherwise the copy-action
  result stays. In every case what is rendered is \<open>normalizeMarkdown\<close> of the chosen
  text.
\<close>

theorem final_text_selection:
  "(copied = None \<longrightarrow> chooseFinalText copied domText = domText)
   \<and> (copied = Some c \<and> trim c = [] \<longrightarrow> chooseFinalText copied domText = domText)
   \<and> (copied = Some c \<and> trim c \<noteq> [] \<and> looksLikeMarkdown c \<longrightarrow> chooseFinalText copied domText = c)
   \<and> (copied = Some c \<and> trim c \<noteq> [] \<and> \<not> looksLikeMarkdown c \<and> trim domText \<noteq> []
        \<longrightarrow> chooseFinalText copied domText = domText)
   \<and> (copied = Some c \<and> trim c \<noteq> [] \<and> \<not> looksLikeMarkdown c \<and> trim domText = []
        \<longrightarrow> chooseFinalText copied domText = c)
   \<and> renderFinal marked copied domText = marked (normalizeMarkdown (chooseFinalText copied domText))"
  by (auto simp: chooseFinalText_def renderFinal_def)

theorem final_text_selection_witness:
  "chooseFinalText (Some (js ''plain sentence, no markdown'')) (js ''- a\<newline>- b'') = js ''- a\<newline>- b''
   \<and> renderFinal id (Some (js ''plain sentence, no markdown'')) (js ''- a\<newline>- b'') = js ''- a\<newline>- b''
   \<and> chooseFinalText (Some (js ''# T'')) (js ''- a\<newline>- b'') = js ''# T''
   \<and> chooseFinalText (Some (js ''  '')) (js ''- a\<newline>- b'') = js ''- a\<newline>- b''
   \<and> chooseFinalText None (js ''- a\<newline>- b'') = js ''- a\<newline>- b''
   \<and> chooseFinalText (Some (js ''plain'')) (js '' '') = js ''plain''"
proof -
  have p: "trim (js ''plain sentence, no markdown'') \<noteq> []" "\<not> looksLikeMarkdown (js ''plain sentence, no markdown'')"
    by (simp_all add: trim_def looksLikeMarkdown_def looksLikeMarkdownRx_def rx_eval)
  have d: "trim (js ''- a\<newline>- b'') \<noteq> []" by (simp add: trim_def js_def isWs_def)
  have n: "normalizeMarkdown (js ''- a\<newline>- b'') = js ''- a\<newline>- b''" by (simp add: nm_eval rx_eval)
  have t: "trim (js ''# T'') \<noteq> []" "looksLikeMarkdown (js ''# T'')"
    by (simp_all add: trim_def looksLikeMarkdown_def looksLikeMarkdownRx_def rx_eval)
  have b: "trim (js ''  '') = []" by (simp add: trim_def js_def isWs_def)
  have q: "trim (js ''plain'') \<noteq> []" "\<not> looksLikeMarkdown (js ''plain'')" "trim (js '' '') = []"
    by (simp_all add: trim_def looksLikeMarkdown_def looksLikeMarkdownRx_def rx_eval)
  show ?thesis
    using final_text_selection[of "Some (js ''plain sentence, no markdown'')" "js ''- a\<newline>- b''" "js ''plain sentence, no markdown''" id]
      final_text_selection[of "Some (js ''# T'')" "js ''- a\<newline>- b''" "js ''# T''" id]
      final_text_selection[of "Some (js ''  '')" "js ''- a\<newline>- b''" "js ''  ''" id]
      final_text_selection[of None "js ''- a\<newline>- b''" "[]" id]
      final_text_selection[of "Some (js ''plain'')" "js '' ''" "js ''plain''" id]
      p d n t b q
    by simp
qed

subsection \<open>The pollers\<close>

lemma takeWhile_length_ge:
  "(k \<le> length (takeWhile P xs)) = (k \<le> length xs \<and> (\<forall>x\<in>set (take k xs). P x))"
proof (induction xs arbitrary: k)
  case Nil then show ?case by simp
next
  case (Cons a xs)
  show ?case
  proof (cases k)
    case 0 then show ?thesis by simp
  next
    case (Suc j)
    then show ?thesis using Cons.IH[of j] by auto
  qed
qed

lemma trackLen_sorted:
  assumes "sorted ns"
  shows "foldl trackLen (0, 0) ns =
    ((if ns = [] then 0 else last ns),
     (if ns = [] \<or> last ns = 0 then 0 else length (takeWhile (\<lambda>m. m = last ns) (rev ns)) - 1))"
  using assms
proof (induction ns rule: rev_induct)
  case Nil then show ?case by simp
next
  case (snoc n ns)
  then have s: "sorted ns" and le: "\<forall>m\<in>set ns. m \<le> n" by (simp_all add: sorted_append)
  note ih = snoc.IH[OF s]
  show ?case
  proof (cases "ns = []")
    case True then show ?thesis by simp
  next
    case False
    then have ln: "last ns \<le> n" using le by simp
    have tw: "last ns = n \<Longrightarrow> 0 < length (takeWhile (\<lambda>m. m = n) (rev ns))"
      using False by (cases "rev ns") (auto simp: last_rev[symmetric] simp del: last_rev)
    have tw2: "last ns \<noteq> n \<Longrightarrow> takeWhile (\<lambda>m. m = n) (rev ns) = []"
      using False by (cases ns rule: rev_cases) auto
    show ?thesis using False ln ih tw tw2 by (auto simp: Let_def)
  qed
qed

lemma streamResponse_snoc:
  "streamResponse ic s (obs @ [ob]) =
     (case streamResponse ic s obs of
        (s1, ev, True) \<Rightarrow> (s1, ev, True)
      | (s1, ev, False) \<Rightarrow> (case streamTick ic s1 ob of (s2, ev2, d) \<Rightarrow> (s2, ev @ ev2, d)))"
  by (induction obs arbitrary: s) (auto split: prod.splits bool.splits)

lemma textDiff_track: "pairOf (fst (textDiff s t)) = trackLen (pairOf s) (length t)"
  by (simp add: textDiff_def pairOf_def)

lemma streamTick_state:
  "ic < candidateCount ob \<Longrightarrow> fst (streamTick ic s ob) = fst (textDiff s (innerText ob))"
  by (simp add: streamTick_def split: prod.splits)

lemma streamResponse_track:
  assumes "streamResponse ic s obs = (s', ev, False)" "\<forall>p\<in>set obs. ic < candidateCount p"
  shows "pairOf s' = foldl trackLen (pairOf s) (map (\<lambda>p. length (innerText p)) obs)"
  using assms
proof (induction obs arbitrary: s s' ev)
  case Nil then show ?case by simp
next
  case (Cons ob obs)
  obtain s1 ev1 d1 where t: "streamTick ic s ob = (s1, ev1, d1)" by (cases "streamTick ic s ob") auto
  with Cons.prems(1) have d1: "\<not> d1" by (auto split: prod.splits)
  obtain s2 ev2 d2 where r: "streamResponse ic s1 obs = (s2, ev2, d2)" by (cases "streamResponse ic s1 obs") auto
  with Cons.prems(1) t d1 have e: "s2 = s'" "\<not> d2" by auto
  have "pairOf s1 = trackLen (pairOf s) (length (innerText ob))"
    using t Cons.prems(2) streamTick_state[of ic ob s] textDiff_track[of s "innerText ob"] by simp
  moreover have "pairOf s' = foldl trackLen (pairOf s1) (map (\<lambda>p. length (innerText p)) obs)"
    using Cons.IH[of s1 s2 ev2] r e Cons.prems(2) by simp
  ultimately show ?case by simp
qed

lemma streamTick_done:
  assumes "ic < candidateCount ob"
  shows "snd (snd (streamTick ic s ob)) =
     (isUIComplete ob \<or> (5 < snd (trackLen (pairOf s) (length (innerText ob)))
        \<and> 0 < fst (trackLen (pairOf s) (length (innerText ob)))) \<or> 120000 < elapsedMs ob)"
proof -
  obtain s1 ev where td: "textDiff s (innerText ob) = (s1, ev)" by (cases "textDiff s (innerText ob)") auto
  then have "pairOf s1 = trackLen (pairOf s) (length (innerText ob))"
    using textDiff_track[of s "innerText ob"] by simp
  then have "stableCount s1 = snd (trackLen (pairOf s) (length (innerText ob)))"
       "lastTextLength s1 = fst (trackLen (pairOf s) (length (innerText ob)))"
    by (simp_all add: pairOf_def prod_eq_iff)
  then show ?thesis using assms td by (simp add: streamTick_def)
qed

lemma stable_six:
  assumes "sorted (ns @ [n])"
  shows "(5 < snd (foldl trackLen (0, 0) (ns @ [n])) \<and> 0 < fst (foldl trackLen (0, 0) (ns @ [n])))
     = (0 < n \<and> 6 \<le> length ns \<and> (\<forall>m\<in>set (take 6 (rev ns)). m = n))"
proof -
  have "(5 < length (takeWhile (\<lambda>m. m = n) (rev ns)))
      = (6 \<le> length ns \<and> (\<forall>m\<in>set (take 6 (rev ns)). m = n))"
    using takeWhile_length_ge[of 6 "\<lambda>m. m = n" "rev ns"] by auto
  then show ?thesis unfolding trackLen_sorted[OF assms] by auto
qed

lemma waitLoop_snoc:
  "waitLoop s (obs @ [ob]) =
     (case waitLoop s obs of (s1, True) \<Rightarrow> (s1, True) | (s1, False) \<Rightarrow> waitTick s1 ob)"
  by (induction obs arbitrary: s) (auto split: prod.splits bool.splits)

lemma waitTick_cont:
  assumes "waitTick s ob = (s1, False)" "lastLength s \<le> textLength ob"
  shows "pairOfW s1 = trackLen (pairOfW s) (textLength ob)"
  using assms by (auto simp: waitTick_def pairOfW_def Let_def split: if_splits)

lemma trackLen_fst: "l \<le> n \<Longrightarrow> fst (trackLen (l, k) n) = n"
  by auto

lemma waitLoop_track:
  assumes "waitLoop s obs = (s', False)" "sorted (lastLength s # map textLength obs)"
  shows "pairOfW s' = foldl trackLen (pairOfW s) (map textLength obs)"
  using assms
proof (induction obs arbitrary: s)
  case Nil then show ?case by simp
next
  case (Cons ob obs)
  obtain s1 d1 where t: "waitTick s ob = (s1, d1)" by (cases "waitTick s ob") auto
  with Cons.prems(1) have d1: "\<not> d1" and r: "waitLoop s1 obs = (s', False)" by (auto split: bool.splits)
  have le: "lastLength s \<le> textLength ob" using Cons.prems(2) by simp
  have p1: "pairOfW s1 = trackLen (pairOfW s) (textLength ob)" using t d1 le waitTick_cont by simp
  then have "lastLength s1 = textLength ob" using le trackLen_fst[of "lastLength s" "textLength ob" "stableTicks s"]
    by (simp add: pairOfW_def prod_eq_iff)
  then have "sorted (lastLength s1 # map textLength obs)" using Cons.prems(2) by simp
  then have "pairOfW s' = foldl trackLen (pairOfW s1) (map textLength obs)" using Cons.IH r by simp
  with p1 show ?case by simp
qed

lemma waitTick_done:
  assumes "lastLength s \<le> textLength ob"
  shows "snd (waitTick s ob) =
     (abortRequested ob \<or> hasCopy ob \<or> (0 < textLength ob \<and> 5 < snd (trackLen (pairOfW s) (textLength ob)))
      \<or> 300000 < elapsedAfterMs ob)"
  using assms by (auto simp: waitTick_def pairOfW_def Let_def)

lemma foldl_trackLen_fst_le:
  assumes "sorted (ns @ [n])" shows "fst (foldl trackLen (0, 0) ns) \<le> n"
proof -
  from assms have "sorted ns" "\<forall>m\<in>set ns. m \<le> n" by (simp_all add: sorted_append)
  then show ?thesis by (simp add: trackLen_sorted)
qed

lemma foldl_trackLen_last:
  assumes "sorted (ns @ [n])" shows "fst (foldl trackLen (0, 0) (ns @ [n])) = n"
  using trackLen_sorted[OF assms] by simp

text \<open>
  Claim C4, as amended. Take a growing reply: every observation has a candidate beyond
  the baseline and the observed lengths never decrease. While \<open>streamResponse\<close> is
  still polling after the observations \<open>obs\<close>, the next tick \<open>ob\<close> completes (final
  Markdown, then turn completion) exactly when the completion marker is present, or the
  length is non-zero and was the same on the six ticks before, or more than 120000 ms
  have elapsed. The loop of \<open>waitForResponseAndRender\<close> is left at a tick exactly when
  an abort was requested, or the copy button is present, or the length is non-zero and
  was the same on the six ticks before, or more than 300000 ms have elapsed.
\<close>

theorem poller_completion:
  "(streamResponse ic initStream obs = (s, ev, False)
      \<and> (\<forall>p\<in>set (obs @ [ob]). ic < candidateCount p)
      \<and> sorted (map (\<lambda>p. length (innerText p)) (obs @ [ob]))
    \<longrightarrow> (snd (snd (streamResponse ic initStream (obs @ [ob])))
           = (isUIComplete ob
              \<or> (0 < length (innerText ob) \<and> 6 \<le> length obs
                  \<and> (\<forall>p\<in>set (take 6 (rev obs)). length (innerText p) = length (innerText ob)))
              \<or> 120000 < elapsedMs ob))
        \<and> (snd (snd (streamResponse ic initStream (obs @ [ob])))
             \<longrightarrow> (\<exists>evs. fst (snd (streamResponse ic initStream (obs @ [ob])))
                   = evs @ [OnFinalMarkdown (finalMarkdownOf ob), OnResponseComplete])))
   \<and> (waitLoop initWait wobs = (w, False) \<and> sorted (map textLength (wobs @ [wob]))
    \<longrightarrow> snd (waitLoop initWait (wobs @ [wob]))
           = (abortRequested wob \<or> hasCopy wob
              \<or> (0 < textLength wob \<and> 6 \<le> length wobs
                  \<and> (\<forall>p\<in>set (take 6 (rev wobs)). textLength p = textLength wob))
              \<or> 300000 < elapsedAfterMs wob))"
proof (intro conjI impI)
  assume a: "streamResponse ic initStream obs = (s, ev, False)
      \<and> (\<forall>p\<in>set (obs @ [ob]). ic < candidateCount p)
      \<and> sorted (map (\<lambda>p. length (innerText p)) (obs @ [ob]))"
  let ?ns = "map (\<lambda>p. length (innerText p)) obs"
  let ?n = "length (innerText ob)"
  from a have run: "streamResponse ic initStream obs = (s, ev, False)"
    and c: "\<forall>p\<in>set obs. ic < candidateCount p" "ic < candidateCount ob"
    and so: "sorted (?ns @ [?n])" by simp_all
  have ps: "pairOf s = foldl trackLen (0, 0) ?ns"
    using streamResponse_track[OF run c(1)] by (simp add: pairOf_def initStream_def)
  have step: "streamResponse ic initStream (obs @ [ob]) =
      (case streamTick ic s ob of (s2, ev2, d) \<Rightarrow> (s2, ev @ ev2, d))"
    using run by (simp add: streamResponse_snoc)
  then have d: "snd (snd (streamResponse ic initStream (obs @ [ob]))) = snd (snd (streamTick ic s ob))"
    by (simp split: prod.splits)
  have six: "(5 < snd (trackLen (pairOf s) ?n) \<and> 0 < fst (trackLen (pairOf s) ?n))
     = (0 < ?n \<and> 6 \<le> length ?ns \<and> (\<forall>m\<in>set (take 6 (rev ?ns)). m = ?n))"
    using stable_six[OF so] by (simp add: ps)
  have "(\<forall>m\<in>set (take 6 (rev ?ns)). m = ?n) = (\<forall>p\<in>set (take 6 (rev obs)). length (innerText p) = ?n)"
    by (simp add: rev_map take_map)
  with six show "snd (snd (streamResponse ic initStream (obs @ [ob])))
           = (isUIComplete ob
              \<or> (0 < length (innerText ob) \<and> 6 \<le> length obs
                  \<and> (\<forall>p\<in>set (take 6 (rev obs)). length (innerText p) = length (innerText ob)))
              \<or> 120000 < elapsedMs ob)"
    unfolding d streamTick_done[OF c(2)] by simp
  assume "snd (snd (streamResponse ic initStream (obs @ [ob])))"
  then show "\<exists>evs. fst (snd (streamResponse ic initStream (obs @ [ob])))
                   = evs @ [OnFinalMarkdown (finalMarkdownOf ob), OnResponseComplete]"
    using c(2) unfolding step by (auto simp: streamTick_def split: prod.splits if_splits)
next
  assume a: "waitLoop initWait wobs = (w, False) \<and> sorted (map textLength (wobs @ [wob]))"
  let ?ns = "map textLength wobs"
  let ?n = "textLength wob"
  from a have run: "waitLoop initWait wobs = (w, False)" and so: "sorted (?ns @ [?n])" by simp_all
  from so have so0: "sorted (lastLength initWait # ?ns)" by (simp add: initWait_def sorted_append)
  have pw: "pairOfW w = foldl trackLen (0, 0) ?ns"
    using waitLoop_track[OF run so0] by (simp add: pairOfW_def initWait_def)
  then have le: "lastLength w \<le> ?n" using foldl_trackLen_fst_le[OF so] by (simp add: pairOfW_def prod_eq_iff)
  have fs: "fst (trackLen (pairOfW w) ?n) = ?n" using foldl_trackLen_last[OF so] by (simp add: pw)
  have six: "(0 < ?n \<and> 5 < snd (trackLen (pairOfW w) ?n))
     = (0 < ?n \<and> 6 \<le> length ?ns \<and> (\<forall>m\<in>set (take 6 (rev ?ns)). m = ?n))"
    using stable_six[OF so] fs by (auto simp: pw)
  have "(\<forall>m\<in>set (take 6 (rev ?ns)). m = ?n) = (\<forall>p\<in>set (take 6 (rev wobs)). textLength p = ?n)"
    by (simp add: rev_map take_map)
  with six show "snd (waitLoop initWait (wobs @ [wob]))
           = (abortRequested wob \<or> hasCopy wob
              \<or> (0 < textLength wob \<and> 6 \<le> length wobs
                  \<and> (\<forall>p\<in>set (take 6 (rev wobs)). textLength p = textLength wob))
              \<or> 300000 < elapsedAfterMs wob)"
    using run waitTick_done[OF le] by (simp add: waitLoop_snoc)
qed

lemmas poll_eval = streamTick_def textDiff_def finalMarkdownOf_def initStream_def substring_def
  trim_def isWs_def js_def waitTick_def initWait_def Let_def

theorem poller_completion_witness:
  "streamResponse 0 initStream
     [obsOf (js ''Hello'') 200, obsOf (js ''Hello world'') 400, obsOf (js ''Hello world'') 600,
      obsOf (js ''Hello world'') 800, obsOf (js ''Hello world'') 1000, obsOf (js ''Hello world'') 1200,
      obsOf (js ''Hello world'') 1400]
     = (\<lparr>lastTextLength = 11, stableCount = 5\<rparr>, [OnNewChunk (js ''Hello''), OnNewChunk (js '' world'')], False)
   \<and> snd (snd (streamResponse 0 initStream
     ([obsOf (js ''Hello'') 200, obsOf (js ''Hello world'') 400, obsOf (js ''Hello world'') 600,
      obsOf (js ''Hello world'') 800, obsOf (js ''Hello world'') 1000, obsOf (js ''Hello world'') 1200,
      obsOf (js ''Hello world'') 1400] @ [obsOf (js ''Hello world'') 1600])))
   \<and> fst (snd (streamResponse 0 initStream
     ([obsOf (js ''Hello'') 200, obsOf (js ''Hello world'') 400, obsOf (js ''Hello world'') 600,
      obsOf (js ''Hello world'') 800, obsOf (js ''Hello world'') 1000, obsOf (js ''Hello world'') 1200,
      obsOf (js ''Hello world'') 1400] @ [obsOf (js ''Hello world'') 1600])))
     = [OnNewChunk (js ''Hello''), OnNewChunk (js '' world''), OnFinalMarkdown (js ''Hello world''),
        OnResponseComplete]"
proof -
  let ?obs = "[obsOf (js ''Hello'') 200, obsOf (js ''Hello world'') 400, obsOf (js ''Hello world'') 600,
      obsOf (js ''Hello world'') 800, obsOf (js ''Hello world'') 1000, obsOf (js ''Hello world'') 1200,
      obsOf (js ''Hello world'') 1400]"
  let ?ob = "obsOf (js ''Hello world'') 1600"
  have run: "streamResponse 0 initStream ?obs
     = (\<lparr>lastTextLength = 11, stableCount = 5\<rparr>, [OnNewChunk (js ''Hello''), OnNewChunk (js '' world'')], False)"
    by (simp add: obsOf_def poll_eval)
  have h: "(\<forall>p\<in>set (?obs @ [?ob]). 0 < candidateCount p)
      \<and> sorted (map (\<lambda>p. length (innerText p)) (?obs @ [?ob]))"
    by (simp add: obsOf_def js_def)
  have six: "0 < length (innerText ?ob) \<and> 6 \<le> length ?obs
      \<and> (\<forall>p\<in>set (take 6 (rev ?obs)). length (innerText p) = length (innerText ?ob))"
    by (simp add: obsOf_def js_def)
  have ev: "fst (snd (streamResponse 0 initStream (?obs @ [?ob])))
     = [OnNewChunk (js ''Hello''), OnNewChunk (js '' world''), OnFinalMarkdown (js ''Hello world''),
        OnResponseComplete]"
    by (simp add: obsOf_def poll_eval)
  from poller_completion[of 0 ?obs "\<lparr>lastTextLength = 11, stableCount = 5\<rparr>"
      "[OnNewChunk (js ''Hello''), OnNewChunk (js '' world'')]" ?ob "[]" initWait
      "\<lparr>abortRequested = False, hasCopy = True, textLength = 0, elapsedAfterMs = 0\<rparr>"]
    run h six
  have "snd (snd (streamResponse 0 initStream (?obs @ [?ob])))" by blast
  with run ev show ?thesis by simp
qed

text \<open>
  Claim C4 as stated fails at the hard ceiling: no marker, the text has just grown, and
  the poller completes because 120000 ms have passed.
\<close>

theorem hard_ceiling_completes:
  "streamResponse 0 initStream
     [\<lparr>candidateCount = 1, innerText = js ''a'', isUIComplete = False, domMarkdown = js ''a'', elapsedMs = 200\<rparr>,
      \<lparr>candidateCount = 1, innerText = js ''ab'', isUIComplete = False, domMarkdown = js ''ab'', elapsedMs = 120200\<rparr>]
   = (\<lparr>lastTextLength = 2, stableCount = 0\<rparr>,
      [OnNewChunk (js ''a''), OnNewChunk (js ''b''), OnFinalMarkdown (js ''ab''), OnResponseComplete], True)"
  by (simp add: poll_eval)

lemma streamTick_mono: "lastTextLength s \<le> lastTextLength (fst (streamTick ic s ob))"
  by (simp add: streamTick_def textDiff_def split: prod.splits)

lemma emitted_append: "emitted (xs @ ys) = emitted xs @ emitted ys"
  by (induction xs rule: emitted.induct) simp_all

lemma streamResponse_mono:
  "lastTextLength s \<le> lastTextLength (fst (streamResponse ic s obs))"
proof (induction obs arbitrary: s)
  case Nil then show ?case by simp
next
  case (Cons ob obs)
  obtain s1 ev1 d1 where t: "streamTick ic s ob = (s1, ev1, d1)" by (cases "streamTick ic s ob") auto
  have a: "lastTextLength s \<le> lastTextLength s1" using streamTick_mono[of s ic ob] t by simp
  show ?case
  proof (cases d1)
    case True with t a show ?thesis by simp
  next
    case False
    have "lastTextLength s1 \<le> lastTextLength (fst (streamResponse ic s1 obs))" by (rule Cons.IH)
    with a t False show ?thesis by (auto split: prod.splits)
  qed
qed

lemma textDiff_emitted:
  "lastTextLength s \<le> length t \<Longrightarrow> emitted (snd (textDiff s t)) = drop (lastTextLength s) t"
  by (simp add: textDiff_def substring_def)

lemma textDiff_length:
  "lastTextLength s \<le> length t \<Longrightarrow> lastTextLength (fst (textDiff s t)) = length t"
  by (simp add: textDiff_def)

lemma streamTick_emitted:
  "ic < candidateCount ob \<Longrightarrow>
     emitted (fst (snd (streamTick ic s ob))) = emitted (snd (textDiff s (innerText ob)))"
  by (simp add: streamTick_def emitted_append split: prod.splits)

lemma emitted_prefix_chain:
  assumes "obs \<noteq> []" "\<forall>p\<in>set obs. ic < candidateCount p"
    and "sorted_wrt (\<lambda>p q. prefix (innerText p) (innerText q)) obs"
    and "\<forall>p\<in>set obs. prefix e (innerText p)" "lastTextLength s = length e"
    and "\<not> snd (snd (streamResponse ic s (butlast obs)))"
  shows "emitted (fst (snd (streamResponse ic s obs))) = drop (length e) (innerText (last obs))"
  using assms
proof (induction obs arbitrary: s e)
  case Nil then show ?case by simp
next
  case (Cons ob obs)
  obtain s1 ev1 d1 where t: "streamTick ic s ob = (s1, ev1, d1)" by (cases "streamTick ic s ob") auto
  have c: "ic < candidateCount ob" using Cons.prems(2) by simp
  have pe: "prefix e (innerText ob)" using Cons.prems(4) by simp
  then have le: "length e \<le> length (innerText ob)" by (rule prefix_length_le)
  have le': "lastTextLength s \<le> length (innerText ob)" using le Cons.prems(5) by simp
  have em: "emitted ev1 = drop (length e) (innerText ob)"
    using streamTick_emitted[OF c, of s] textDiff_emitted[OF le'] t Cons.prems(5) by simp
  have l1: "lastTextLength s1 = length (innerText ob)"
    using streamTick_state[OF c, of s] textDiff_length[OF le'] t by simp
  show ?case
  proof (cases "obs = []")
    case True
    then show ?thesis using t em by (simp split: bool.splits)
  next
    case False
    then have bl: "butlast (ob # obs) = ob # butlast obs" by simp
    have nd: "\<not> d1" using Cons.prems(6) t unfolding bl by (auto split: bool.splits prod.splits)
    have nd2: "\<not> snd (snd (streamResponse ic s1 (butlast obs)))"
      using Cons.prems(6) t nd unfolding bl by (auto split: prod.splits)
    have pl: "\<forall>p\<in>set obs. prefix (innerText ob) (innerText p)" using Cons.prems(3) by simp
    have ih: "emitted (fst (snd (streamResponse ic s1 obs))) = drop (length (innerText ob)) (innerText (last obs))"
      using Cons.IH[of "innerText ob" s1] False Cons.prems(2,3) pl l1 nd2 by simp
    have "prefix (innerText ob) (innerText (last obs))" using pl False by simp
    then obtain r where r: "innerText (last obs) = innerText ob @ r" by (auto simp: prefix_def)
    have "emitted (fst (snd (streamResponse ic s (ob # obs)))) = emitted ev1 @ emitted (fst (snd (streamResponse ic s1 obs)))"
      using t nd by (simp add: emitted_append split: prod.splits)
    also have "\<dots> = drop (length e) (innerText ob) @ r" using em ih r by simp
    also have "\<dots> = drop (length e) (innerText (last obs))" using r le by simp
    finally show ?thesis using False by simp
  qed
qed

text \<open>
  Claim C5, as amended. The tracked length never decreases, over a tick and over any
  run of ticks. On a tick with a candidate whose text is longer than the tracked length,
  the first hook called is \<open>onNewChunk\<close> with exactly the code units beyond the tracked
  length, and the tracked length becomes the length of the text. When every observed
  text is a prefix of the later ones and the poller has run through all observations,
  the chunks concatenate to the last observed text.
\<close>

theorem text_diff_emitter:
  "lastTextLength s \<le> lastTextLength (fst (streamTick ic s ob))
   \<and> lastTextLength s \<le> lastTextLength (fst (streamResponse ic s obs))
   \<and> (ic < candidateCount ob \<and> lastTextLength s < length (innerText ob)
       \<longrightarrow> (\<exists>rest. fst (snd (streamTick ic s ob)) = OnNewChunk (drop (lastTextLength s) (innerText ob)) # rest)
           \<and> lastTextLength (fst (streamTick ic s ob)) = length (innerText ob))
   \<and> (obs \<noteq> [] \<and> (\<forall>p\<in>set obs. ic < candidateCount p)
       \<and> sorted_wrt (\<lambda>p q. prefix (innerText p) (innerText q)) obs
       \<and> \<not> snd (snd (streamResponse ic initStream (butlast obs)))
       \<longrightarrow> emitted (fst (snd (streamResponse ic initStream obs))) = innerText (last obs))"
proof (intro conjI impI)
  show "lastTextLength s \<le> lastTextLength (fst (streamTick ic s ob))" by (rule streamTick_mono)
  show "lastTextLength s \<le> lastTextLength (fst (streamResponse ic s obs))" by (rule streamResponse_mono)
next
  assume "ic < candidateCount ob \<and> lastTextLength s < length (innerText ob)"
  then show "\<exists>rest. fst (snd (streamTick ic s ob)) = OnNewChunk (drop (lastTextLength s) (innerText ob)) # rest"
    and "lastTextLength (fst (streamTick ic s ob)) = length (innerText ob)"
    by (auto simp: streamTick_def textDiff_def substring_def)
next
  assume a: "obs \<noteq> [] \<and> (\<forall>p\<in>set obs. ic < candidateCount p)
       \<and> sorted_wrt (\<lambda>p q. prefix (innerText p) (innerText q)) obs
       \<and> \<not> snd (snd (streamResponse ic initStream (butlast obs)))"
  then show "emitted (fst (snd (streamResponse ic initStream obs))) = innerText (last obs)"
    using emitted_prefix_chain[of obs ic "[]" initStream] by (simp add: initStream_def)
qed

theorem text_diff_emitter_witness:
  "emitted (fst (snd (streamResponse 0 initStream [obsOf (js ''He'') 200, obsOf (js ''Hello'') 400, obsOf (js ''Hello'') 600])))
     = js ''Hello''
   \<and> fst (snd (streamTick 0 \<lparr>lastTextLength = 2, stableCount = 0\<rparr> (obsOf (js ''Hello'') 400))) = [OnNewChunk (js ''llo'')]
   \<and> lastTextLength (fst (streamTick 0 \<lparr>lastTextLength = 2, stableCount = 0\<rparr> (obsOf (js ''Hello'') 400))) = 5"
proof -
  let ?obs = "[obsOf (js ''He'') 200, obsOf (js ''Hello'') 400, obsOf (js ''Hello'') 600]"
  have h: "?obs \<noteq> [] \<and> (\<forall>p\<in>set ?obs. 0 < candidateCount p)
       \<and> sorted_wrt (\<lambda>p q. prefix (innerText p) (innerText q)) ?obs
       \<and> \<not> snd (snd (streamResponse 0 initStream (butlast ?obs)))"
    by (simp add: obsOf_def poll_eval)
  have g: "0 < candidateCount (obsOf (js ''Hello'') 400)
     \<and> lastTextLength \<lparr>lastTextLength = 2, stableCount = 0\<rparr> < length (innerText (obsOf (js ''Hello'') 400))"
    by (simp add: obsOf_def js_def)
  have v: "fst (snd (streamTick 0 \<lparr>lastTextLength = 2, stableCount = 0\<rparr> (obsOf (js ''Hello'') 400))) = [OnNewChunk (js ''llo'')]"
    by (simp add: obsOf_def poll_eval)
  from text_diff_emitter[of "\<lparr>lastTextLength = 2, stableCount = 0\<rparr>" 0 "obsOf (js ''Hello'') 400" ?obs] h g v
  show ?thesis by (simp add: obsOf_def js_def)
qed

text \<open>
  Claim C5 as stated fails when the reply is rewritten rather than extended: after
  \<open>ab\<close> the text \<open>xyz\<close> yields the chunk \<open>z\<close>, and the chunks read \<open>abz\<close>.
\<close>

theorem emitted_text_differs_from_final_text:
  "emitted (fst (snd (streamResponse 0 initStream
     [\<lparr>candidateCount = 1, innerText = js ''ab'', isUIComplete = False, domMarkdown = js ''ab'', elapsedMs = 200\<rparr>,
      \<lparr>candidateCount = 1, innerText = js ''xyz'', isUIComplete = False, domMarkdown = js ''xyz'', elapsedMs = 400\<rparr>])))
   = js ''abz''
   \<and> js ''abz'' \<noteq> js ''xyz''"
  by (simp add: poll_eval)

text \<open>
  Claim C9. If every tick up to 30000 ms sees no candidate beyond the baseline, the
  first such tick after 30000 ms clears the interval and signals turn completion; no
  chunk and no final Markdown has been emitted, whatever the page shows afterwards.
\<close>

theorem no_candidate_timeout:
  assumes "\<forall>p\<in>set obs. candidateCount p \<le> ic \<and> elapsedMs p \<le> 30000"
    and "candidateCount ob \<le> ic" "30000 < elapsedMs ob"
  shows "streamResponse ic s (obs @ ob # rest) = (s, [OnResponseComplete], True)
       \<and> emitted (fst (snd (streamResponse ic s (obs @ ob # rest)))) = []"
proof -
  have "streamResponse ic s (obs @ ob # rest) = (s, [OnResponseComplete], True)"
    using assms by (induction obs) (simp_all add: streamTick_def)
  then show ?thesis by simp
qed

theorem no_candidate_timeout_witness:
  "streamResponse 2 initStream
     [\<lparr>candidateCount = 2, innerText = js ''old'', isUIComplete = True, domMarkdown = js ''old'', elapsedMs = 200\<rparr>,
      \<lparr>candidateCount = 2, innerText = js ''old'', isUIComplete = True, domMarkdown = js ''old'', elapsedMs = 30000\<rparr>,
      \<lparr>candidateCount = 0, innerText = [], isUIComplete = False, domMarkdown = [], elapsedMs = 30200\<rparr>,
      \<lparr>candidateCount = 3, innerText = js ''late'', isUIComplete = False, domMarkdown = [], elapsedMs = 30400\<rparr>]
   = (initStream, [OnResponseComplete], True)"
  using no_candidate_timeout[of
     "[\<lparr>candidateCount = 2, innerText = js ''old'', isUIComplete = True, domMarkdown = js ''old'', elapsedMs = 200\<rparr>,
      \<lparr>candidateCount = 2, innerText = js ''old'', isUIComplete = True, domMarkdown = js ''old'', elapsedMs = 30000\<rparr>]"
     2 "\<lparr>candidateCount = 0, innerText = [], isUIComplete = False, domMarkdown = [], elapsedMs = 30200\<rparr>"
     initStream
     "[\<lparr>candidateCount = 3, innerText = js ''late'', isUIComplete = False, domMarkdown = [], elapsedMs = 30400\<rparr>]"]
  by simp

subsection \<open>The rich-text walker\<close>

lemma replicate_num: "replicate (numeral k) x = x # replicate (pred_numeral k) x"
  by (simp add: numeral_eq_Suc)

lemmas dom_eval = replicate_num domToMarkdown_def extractCodeBlock_def extractTable_def querySelector_def querySelectorAll_def
  matchesComplex_def matchesCompound_def byTag_def byClass_def children_def cellsOf_def tableRow_def
  escapeTableCell_def escapePipes_def toLowerCase_def stripFinalNewline_def fenceFor_def inlineFence_def
  repeat_def appendMd_def ensureNewlines_def trailingNewlines_def headingLevel_def listMarker_def quoteLines_def
  trim_def isWs_def js_def cu_def Let_def

text \<open>
  Claim C7 at the input of the spec's scenario B: a reply whose only child is
  \<open><pre>print('hi')</pre>\<close>. \<open>extractCodeBlock\<close> looks for the code element among the
  descendants of the block (\<open>querySelector\<close> never returns the element it is called
  on), a \<open>pre\<close> with nothing but text has none, and the fenced block comes out empty.
\<close>

theorem pre_text_is_lost:
  "domToMarkdown [] (Element ''div'' [] [] [Element ''pre'' [] [] [TextNode (js ''print('hi')'')]])
     = js ''```\<newline>\<newline>```''"
  by (simp add: dom_eval)

text \<open>With a \<open>code\<close> element inside the \<open>pre\<close> the text is found and fenced.\<close>

lemma pre_code_ok:
  "domToMarkdown [] (Element ''div'' [] [] [Element ''pre'' [] [] [Element ''code'' [] [] [TextNode (js ''print('hi')\<newline>'')]]])
     = js ''```\<newline>print('hi')\<newline>```''"
  by (simp add: dom_eval)

text \<open>
  Claim C8 at a table with a head section: the rows of the body are taken with
  \<open>querySelectorAll('tbody tr, tr')\<close>, which also matches the row of the head, so the
  header cells come out once as the header and once more as the first body row.
\<close>

theorem table_header_row_repeated:
  "domToMarkdown [] (Element ''div'' [] []
     [Element ''table'' [] []
        [Element ''thead'' [] [] [Element ''tr'' [] []
            [Element ''th'' [] [] [TextNode (js ''A'')], Element ''th'' [] [] [TextNode (js ''B'')]]],
         Element ''tbody'' [] [] [Element ''tr'' [] []
            [Element ''td'' [] [] [TextNode (js ''1'')], Element ''td'' [] [] [TextNode (js ''2'')]]]]])
     = js ''| A | B |\<newline>| --- | --- |\<newline>| A | B |\<newline>| 1 | 2 |''"
  by (simp add: dom_eval)

subsection \<open>The copy action\<close>

lemma remove_added: "l \<notin> set ls \<Longrightarrow> removeEventListener l (addEventListener l ls) = ls"
  by (simp add: removeEventListener_def addEventListener_def)

text \<open>
  Claim C10, as amended. When the promise of \<open>fetchCopyMarkdown\<close> resolves, whatever the
  page did after the click and whether or not anything was captured, the \<open>copy\<close>
  listeners are those from before the call (the listener \<open>onCopy\<close> is a fresh one),
  \<open>document.execCommand\<close> is the function from before, and
  \<open>navigator.clipboard.writeText\<close> is the function from before bound to
  \<open>navigator.clipboard\<close>; with no \<open>writeText\<close> to patch, or no copy button, the page is
  exactly as before (and without a button \<open>null\<close> is returned).
\<close>

theorem copy_action_restores_page:
  assumes "OnCopy \<notin> set (copyListeners page)"
  shows "copyListeners (fst (fetchCopyMarkdown copyBtn actions page)) = copyListeners page
       \<and> execCommand (fst (fetchCopyMarkdown copyBtn actions page)) = execCommand page
       \<and> clipboardWriteText (fst (fetchCopyMarkdown copyBtn actions page))
           = (if copyBtn then map_option BoundFn (clipboardWriteText page) else clipboardWriteText page)
       \<and> (\<not> copyBtn \<longrightarrow> fetchCopyMarkdown copyBtn actions page = (page, None))
       \<and> (clipboardWriteText page = None \<longrightarrow> fst (fetchCopyMarkdown copyBtn actions page) = page)"
  using assms
  by (cases "clipboardWriteText page") (simp_all add: fetchCopyMarkdown_def Let_def remove_added)

theorem copy_action_restores_page_witness:
  "fetchCopyMarkdown True [CallExecCommand, DispatchCopy None, CallWriteText (js ''# T'')]
     \<lparr>clipboardWriteText = Some (Native ''writeText''), execCommand = Native ''execCommand'',
      copyListeners = [PageListener 0]\<rparr>
   = (\<lparr>clipboardWriteText = Some (BoundFn (Native ''writeText'')), execCommand = Native ''execCommand'',
       copyListeners = [PageListener 0]\<rparr>, Some (js ''# T''))
   \<and> fetchCopyMarkdown False [] \<lparr>clipboardWriteText = None, execCommand = Native ''execCommand'',
      copyListeners = [PageListener 0]\<rparr>
   = (\<lparr>clipboardWriteText = None, execCommand = Native ''execCommand'',
       copyListeners = [PageListener 0]\<rparr>, None)"
proof -
  let ?p = "\<lparr>clipboardWriteText = Some (Native ''writeText''), execCommand = Native ''execCommand'',
      copyListeners = [PageListener 0]\<rparr>"
  let ?q = "\<lparr>clipboardWriteText = None, execCommand = Native ''execCommand'',
      copyListeners = [PageListener 0]\<rparr>"
  have h: "OnCopy \<notin> set (copyListeners ?p)" "OnCopy \<notin> set (copyListeners ?q)" by simp_all
  have r: "snd (fetchCopyMarkdown True [CallExecCommand, DispatchCopy None, CallWriteText (js ''# T'')] ?p) = Some (js ''# T'')"
    by (simp add: fetchCopyMarkdown_def Let_def addEventListener_def)
  from copy_action_restores_page[OF h(1), of True "[CallExecCommand, DispatchCopy None, CallWriteText (js ''# T'')]"]
       copy_action_restores_page[OF h(2), of False "[]"] r
  show ?thesis by (simp add: prod_eq_iff)
qed

text \<open>
  Claim C10 as stated fails for \<open>writeText\<close>: what is put back is
  \<open>writeText.bind(navigator.clipboard)\<close>, a new function object, not the value the slot
  held before.
\<close>

theorem writeText_restored_as_bound_copy:
  "clipboardWriteText (fst (fetchCopyMarkdown True []
     \<lparr>clipboardWriteText = Some (Native ''writeText''), execCommand = Native ''execCommand'',
      copyListeners = []\<rparr>))
   = Some (BoundFn (Native ''writeText''))
   \<and> Some (BoundFn (Native ''writeText'')) \<noteq> Some (Native ''writeText'')"
  by (simp add: fetchCopyMarkdown_def Let_def addEventListener_def removeEventListener_def)

subsection \<open>Further properties\<close>

text \<open>
  The hard-break test of the normalizer looks at \<open>prev.trim()\<close>, which never ends in
  spaces: a continuation line is appended also to a previous line that ends in two
  spaces.
\<close>

theorem hard_break_is_never_detected:
  assumes "\<not> isFence line" "\<not> inFence st" "\<not> inTable st"
    and "\<not> (2 \<le> countPipes line \<and> isTableSepLine next)"
    and "trim line \<noteq> []" "\<not> isBlockStart line"
    and "out st \<noteq> []" "last (out st) \<noteq> []" "\<not> isBlockStart (last (out st))"
    and "endsWith (last (out st)) (js ''  '')"
  shows "normalizeLine st line next
           = st\<lparr>out := butlast (out st) @ [last (out st) @ js '' '' @ trim line]\<rparr>"
  using assms by (auto simp add: normalizeLine_def Let_def isFence_def trim_not_hard_break)

theorem hard_break_is_never_detected_witness:
  "normalizeLine \<lparr>out = [js ''```'', js ''```  ''], inFence = False, inTable = False, tablePipeCount = 0\<rparr>
      (js ''foo'') []
     = \<lparr>out = [js ''```'', js ''```   foo''], inFence = False, inTable = False, tablePipeCount = 0\<rparr>
   \<and> normalizeMarkdown (js ''```\<newline>```  \<newline>foo'') = js ''```\<newline>```   foo''"
proof -
  let ?st = "\<lparr>out = [js ''```'', js ''```  ''], inFence = False, inTable = False, tablePipeCount = 0\<rparr>"
  have l: "\<not> isFence (js ''foo'')" "\<not> (2 \<le> countPipes (js ''foo'') \<and> isTableSepLine [])"
     "trim (js ''foo'') \<noteq> []" "\<not> isBlockStart (js ''foo'')"
    by (simp_all add: isFence_eval nm_eval rx_eval)
  have t: "trim (js ''foo'') = js ''foo''" by (simp add: trim_def js_def isWs_def)
  have p: "\<not> isBlockStart (js ''```  '')" "endsWith (js ''```  '') (js ''  '')"
    by (simp_all add: nm_eval rx_eval)
  have v: "normalizeMarkdown (js ''```\<newline>```  \<newline>foo'') = js ''```\<newline>```   foo''"
    by (simp add: nm_eval rx_eval)
  from hard_break_is_never_detected[of "js ''foo''" ?st "[]", OF l(1) _ _ l(2) l(3) l(4)] p
  have "normalizeLine ?st (js ''foo'') []
     = \<lparr>out = [js ''```'', js ''```   foo''], inFence = False, inTable = False, tablePipeCount = 0\<rparr>"
    by (simp add: t) (simp add: js_def)
  with v show ?thesis by simp
qed

text \<open>
  An ordered list with an unordered sub-list: the numbers of the outer list go on after
  the sub-list, whose items are indented by two spaces.
\<close>

theorem nested_list_numbers:
  "domToMarkdown [] (Element ''div'' [] []
     [Element ''ol'' [] []
        [Element ''li'' [] [] [TextNode (js ''x''),
            Element ''ul'' [] [] [Element ''li'' [] [] [TextNode (js ''y'')],
                                  Element ''li'' [] [] [TextNode (js ''z'')]]],
         Element ''li'' [] [] [TextNode (js ''w'')]]])
     = js ''1. x\<newline>\<newline>  - y\<newline>  - z\<newline>\<newline>2. w''"
  by (simp add: dom_eval showNat.simps)

lemma foldl_max_ge: "a \<le> foldl max a xs \<and> (\<forall>n\<in>set xs. n \<le> foldl max (a::nat) xs)"
proof (induction xs arbitrary: a)
  case Nil then show ?case by simp
next
  case (Cons x xs)
  have "max a x \<le> foldl max (max a x) xs" "\<forall>n\<in>set xs. n \<le> foldl max (max a x) xs"
    using Cons.IH[of "max a x"] by simp_all
  then show ?case by auto
qed

text \<open>
  The fence of a code block is a run of backticks, at least three and one more than the
  longest run of backticks in the code, so longer than every run in it.
\<close>

theorem fence_longer_than_every_run:
  "length (fenceFor t) = max 3 (foldl max 0 (backtickRuns 0 t) + 1)
   \<and> set (fenceFor t) = {cu CHR ''`''}
   \<and> (\<forall>n\<in>set (backtickRuns 0 t). n < length (fenceFor t))"
proof -
  have len: "length (fenceFor t) = max 3 (foldl max 0 (backtickRuns 0 t) + 1)"
    by (simp add: fenceFor_def repeat_def js_def length_concat sum_list_replicate)
  have "\<forall>n\<in>set (backtickRuns 0 t). n \<le> foldl max 0 (backtickRuns 0 t)"
    using foldl_max_ge[of 0 "backtickRuns 0 t"] by simp
  then have "\<forall>n\<in>set (backtickRuns 0 t). n < length (fenceFor t)" unfolding len by auto
  moreover have "set (fenceFor t) = {cu CHR ''`''}"
    by (auto simp: fenceFor_def repeat_def js_def cu_def)
  ultimately show ?thesis using len by simp
qed

theorem fence_longer_than_every_run_witness:
  "fenceFor (js ''a ```` b `` c'') = js ''`````'' \<and> backtickRuns 0 (js ''a ```` b `` c'') = [4, 2]
   \<and> fenceFor (js ''print('hi')'') = js ''```''"
proof -
  have a: "backtickRuns 0 (js ''a ```` b `` c'') = [4, 2]" by (simp add: js_def cu_def)
  have b: "fenceFor (js ''a ```` b `` c'') = js ''`````''" "fenceFor (js ''print('hi')'') = js ''```''"
    by (simp_all add: dom_eval)
  from fence_longer_than_every_run[of "js ''a ```` b `` c''"] a b show ?thesis by simp
qed

text \<open>
  The stability counter of \<open>streamResponse\<close> is reset whenever the text has grown, and
  does not move while the text is empty.
\<close>

theorem stable_ticks_reset_on_growth:
  "(lastTextLength s < length t \<longrightarrow> stableCount (fst (textDiff s t)) = 0)
   \<and> (\<not> 0 < length (innerText ob) \<longrightarrow> stableCount (fst (streamTick ic s ob)) = stableCount s)"
  by (auto simp: textDiff_def streamTick_def split: prod.splits)

theorem stable_ticks_reset_on_growth_witness:
  "stableCount (fst (textDiff \<lparr>lastTextLength = 2, stableCount = 4\<rparr> (js ''abc''))) = 0
   \<and> stableCount (fst (streamTick 0 \<lparr>lastTextLength = 0, stableCount = 0\<rparr>
        \<lparr>candidateCount = 1, innerText = [], isUIComplete = False, domMarkdown = [], elapsedMs = 200\<rparr>)) = 0"
  using stable_ticks_reset_on_growth[of "\<lparr>lastTextLength = 2, stableCount = 4\<rparr>" "js ''abc''"
      "\<lparr>candidateCount = 1, innerText = [], isUIComplete = False, domMarkdown = [], elapsedMs = 200\<rparr>" 0]
    stable_ticks_reset_on_growth[of "\<lparr>lastTextLength = 0, stableCount = 0\<rparr>" "js ''abc''"
      "\<lparr>candidateCount = 1, innerText = [], isUIComplete = False, domMarkdown = [], elapsedMs = 200\<rparr>" 0]
  by (simp add: js_def)

end
